theory Spec2Isabelle
  imports Main
begin

section \<open>Vocabulary: pieces, directions, rewards, errors\<close>

text \<open>
  The module \<^verbatim>\<open>state.py\<close> imports \<^verbatim>\<open>Piece\<close>, \<^verbatim>\<open>Direction\<close> and \<^verbatim>\<open>Reward\<close> from
  \<^verbatim>\<open>enums.py\<close>, \<^verbatim>\<open>Position\<close> from \<^verbatim>\<open>position.py\<close> and three constants from
  \<^verbatim>\<open>constants.py\<close>. The enumerations are closed; their members are the constructors
  below. The sentinel direction is called \<^verbatim>\<open>Direction.X\<close> in \<^verbatim>\<open>state.py\<close>.
\<close>

datatype piece = WHITE | BLACK | EMPTY

datatype direction =
  Dir_SW | Dir_S | Dir_SE | Dir_W | Dir_X | Dir_E | Dir_NW | Dir_N | Dir_NE

datatype reward = WIN | LOSS | DRAW

text \<open>
  Failures are values. The first three are the Python exceptions that the built-in
  operations used by \<^verbatim>\<open>state.py\<close> raise (\<^verbatim>\<open>int\<close>, tuple unpacking and \<^verbatim>\<open>Piece(v)\<close> raise
  \<^verbatim>\<open>ValueError\<close>, \<^verbatim>\<open>Direction[name]\<close> raises \<^verbatim>\<open>KeyError\<close>, array indexing raises
  \<^verbatim>\<open>IndexError\<close>); the last two are the failures of the position and piece
  vocabulary.
\<close>

datatype py_error =
  ValueError | KeyError | IndexError | InvalidPosition | InvalidPieceConversion

text \<open>
  What \<^verbatim>\<open>constants.py\<close> and \<^verbatim>\<open>enums.py\<close> fix and the text of \<^verbatim>\<open>state.py\<close> does not
  determine is a parameter of the model: the move limit, the integer value of each
  member of the integer enumeration \<^verbatim>\<open>Piece\<close> (the values are what the board array
  stores), and the string printed for \<^verbatim>\<open>Piece.EMPTY\<close>.
\<close>

record params =
  MOVE_LIMIT :: int
  Piece_value :: "piece \<Rightarrow> int"
  Piece_str_EMPTY :: string

definition wf_params :: "params \<Rightarrow> bool" where
  "wf_params P \<longleftrightarrow>
     distinct (map (Piece_value P) [WHITE, BLACK, EMPTY]) \<and>
     list_all (\<lambda>p. - 128 \<le> Piece_value P p \<and> Piece_value P p \<le> 127) [WHITE, BLACK, EMPTY]"

text \<open>Modelled from the spec: \<^verbatim>\<open>constants.py\<close> is not part of the sources; the board is
  a fixed 5 by 9 grid.\<close>

definition BOARD_ROWS :: nat where
  "BOARD_ROWS = 5"

definition BOARD_COLS :: nat where
  "BOARD_COLS = 9"

text \<open>\<^verbatim>\<open>Piece(v)\<close>: the member whose value is \<open>v\<close>, \<^verbatim>\<open>ValueError\<close> when there is none.\<close>

definition Piece_of :: "params \<Rightarrow> int \<Rightarrow> py_error + piece" where
  "Piece_of P v =
     (case find (\<lambda>p. Piece_value P p = v) [WHITE, BLACK, EMPTY] of
        Some p \<Rightarrow> Inr p
      | None \<Rightarrow> Inl ValueError)"

text \<open>Modelled from the spec: \<^verbatim>\<open>Piece.other\<close> of \<^verbatim>\<open>enums.py\<close>, which is not part of the
  sources, maps WHITE to BLACK and BLACK to WHITE and fails on EMPTY.\<close>

fun Piece_other :: "piece \<Rightarrow> py_error + piece" where
  "Piece_other WHITE = Inr BLACK"
| "Piece_other BLACK = Inr WHITE"
| "Piece_other EMPTY = Inl InvalidPieceConversion"

text \<open>Modelled from the spec: \<^verbatim>\<open>Piece.__str__\<close> of \<^verbatim>\<open>enums.py\<close>, which is not part of
  the sources, prints the piece markers \<^verbatim>\<open>W\<close> and \<^verbatim>\<open>B\<close>.\<close>

fun Piece_str :: "params \<Rightarrow> piece \<Rightarrow> string" where
  "Piece_str P WHITE = ''W''"
| "Piece_str P BLACK = ''B''"
| "Piece_str P EMPTY = Piece_str_EMPTY P"

text \<open>Modelled from the spec: the names of the members of \<^verbatim>\<open>Direction\<close> in \<^verbatim>\<open>enums.py\<close>,
  which is not part of the sources, are the eight compass directions; the sentinel is
  \<^verbatim>\<open>X\<close>, as \<^verbatim>\<open>state.py\<close> calls it.\<close>

fun Direction_name :: "direction \<Rightarrow> string" where
  "Direction_name Dir_SW = ''SW''"
| "Direction_name Dir_S = ''S''"
| "Direction_name Dir_SE = ''SE''"
| "Direction_name Dir_W = ''W''"
| "Direction_name Dir_X = ''X''"
| "Direction_name Dir_E = ''E''"
| "Direction_name Dir_NW = ''NW''"
| "Direction_name Dir_N = ''N''"
| "Direction_name Dir_NE = ''NE''"

definition Direction_members :: "direction list" where
  "Direction_members = [Dir_SW, Dir_S, Dir_SE, Dir_W, Dir_X, Dir_E, Dir_NW, Dir_N, Dir_NE]"

text \<open>\<^verbatim>\<open>Direction[name]\<close>: lookup of a member by name, \<^verbatim>\<open>KeyError\<close> when there is none.\<close>

definition Direction_of_name :: "string \<Rightarrow> py_error + direction" where
  "Direction_of_name n =
     (case find (\<lambda>d. Direction_name d = n) Direction_members of
        Some d \<Rightarrow> Inr d
      | None \<Rightarrow> Inl KeyError)"

text \<open>Modelled from the spec: \<^verbatim>\<open>Direction.__str__\<close> of \<^verbatim>\<open>enums.py\<close>, which is not part
  of the sources, prints the name of the direction, or \<^verbatim>\<open>-\<close> for the sentinel.\<close>

definition Direction_str :: "direction \<Rightarrow> string" where
  "Direction_str d = (if d = Dir_X then ''-'' else Direction_name d)"

section \<open>Positions\<close>

text \<open>\<^verbatim>\<open>state.py\<close> reads the attributes \<^verbatim>\<open>row\<close> and \<^verbatim>\<open>col\<close> of a position.\<close>

record position =
  row :: int
  col :: int

text \<open>Modelled from the spec: \<^verbatim>\<open>Position.pos_range\<close> of \<^verbatim>\<open>position.py\<close>, which is not
  part of the sources, yields every position of the grid once, in row-major order.\<close>

definition pos_range :: "position list" where
  "pos_range =
     concat (map (\<lambda>r. map (\<lambda>c. \<lparr>row = int r, col = int c\<rparr>) [0..<BOARD_COLS]) [0..<BOARD_ROWS])"

definition to_coords :: "position \<Rightarrow> int \<times> int" where
  "to_coords pos = (row pos, col pos)"

text \<open>Modelled from the spec: the human label of \<^verbatim>\<open>position.py\<close>, which is not part of
  the sources, is one-based: the column letter (\<^verbatim>\<open>A\<close> to \<^verbatim>\<open>I\<close>) followed by the row
  number (\<^verbatim>\<open>1\<close> to \<^verbatim>\<open>5\<close>). Building a position from a label that is not of this form,
  or from indices outside the grid, fails.\<close>

definition to_human :: "position \<Rightarrow> string" where
  "to_human pos = [char_of (65 + col pos), char_of (49 + row pos)]"

definition Position_of_coords :: "int \<times> int \<Rightarrow> py_error + position" where
  "Position_of_coords rc =
     (case rc of (r, c) \<Rightarrow>
        if 0 \<le> r \<and> r < int BOARD_ROWS \<and> 0 \<le> c \<and> c < int BOARD_COLS
        then Inr \<lparr>row = r, col = c\<rparr>
        else Inl InvalidPosition)"

definition Position_of_human :: "string \<Rightarrow> py_error + position" where
  "Position_of_human h =
     (case h of
        [cl, rd] \<Rightarrow>
          Position_of_coords (of_char rd - 49, of_char cl - 65)
      | _ \<Rightarrow> Inl InvalidPosition)"

section \<open>Array indexing\<close>

text \<open>
  \<^verbatim>\<open>a[i]\<close> on an array or list of length \<open>n\<close>: indices from \<open>0\<close> to \<open>n - 1\<close> address the
  cells, indices from \<open>- n\<close> to \<open>- 1\<close> count from the end, every other index raises
  \<^verbatim>\<open>IndexError\<close>.
\<close>

definition np_index :: "'a list \<Rightarrow> int \<Rightarrow> py_error + nat" where
  "np_index xs i =
     (let n = int (length xs)
      in if 0 \<le> i \<and> i < n then Inr (nat i)
         else if - n \<le> i \<and> i < 0 then Inr (nat (i + n))
         else Inl IndexError)"

definition np_get :: "'a list \<Rightarrow> int \<Rightarrow> py_error + 'a" where
  "np_get xs i = (case np_index xs i of Inl e \<Rightarrow> Inl e | Inr k \<Rightarrow> Inr (xs ! k))"

definition np_set :: "'a list \<Rightarrow> int \<Rightarrow> 'a \<Rightarrow> py_error + 'a list" where
  "np_set xs i v = (case np_index xs i of Inl e \<Rightarrow> Inl e | Inr k \<Rightarrow> Inr (xs[k := v]))"

text \<open>\<^verbatim>\<open>a[r][c] = v\<close> on a two-dimensional array.\<close>

definition np_set2 :: "'a list list \<Rightarrow> int \<Rightarrow> int \<Rightarrow> 'a \<Rightarrow> py_error + 'a list list" where
  "np_set2 a r c v =
     (case np_index a r of
        Inl e \<Rightarrow> Inl e
      | Inr k \<Rightarrow>
          (case np_set (a ! k) c v of
             Inl e \<Rightarrow> Inl e
           | Inr line \<Rightarrow> Inr (a[k := line])))"

section \<open>The board state and its queries\<close>

text \<open>
  The five attributes of \<^verbatim>\<open>FanoronaState\<close>. The board array holds the integer values of
  pieces (\<^verbatim>\<open>np.int8\<close>), the visited array holds flags.
\<close>

record FanoronaState =
  board_state :: "int list list"
  turn_to_play :: piece
  last_dir :: direction
  visited :: "bool list list"
  half_moves :: int

text \<open>
  A call of a method of the object is a function of the object's state: it returns the
  result, or the error raised, together with the state in which it leaves the object.
\<close>

type_synonym 'a call = "FanoronaState \<Rightarrow> (py_error + 'a) \<times> FanoronaState"

definition get_piece :: "params \<Rightarrow> position \<Rightarrow> piece call" where
  "get_piece P position s =
     (case np_get (board_state s) (row position) of
        Inl e \<Rightarrow> (Inl e, s)
      | Inr line \<Rightarrow>
          (case np_get line (col position) of
             Inl e \<Rightarrow> (Inl e, s)
           | Inr v \<Rightarrow> (Piece_of P v, s)))"

text \<open>The list comprehension of \<^verbatim>\<open>count\<close>: one \<open>1\<close> for each position that holds \<open>side\<close>.\<close>

fun count_loop :: "params \<Rightarrow> piece \<Rightarrow> position list \<Rightarrow> int list \<Rightarrow> (int list) call" where
  "count_loop P side [] acc s = (Inr acc, s)"
| "count_loop P side (pos # rest) acc s =
     (case get_piece P pos s of
        (Inl e, s') \<Rightarrow> (Inl e, s')
      | (Inr q, s') \<Rightarrow> count_loop P side rest (if q = side then acc @ [1] else acc) s')"

definition count :: "params \<Rightarrow> piece \<Rightarrow> int call" where
  "count P side s =
     (case count_loop P side pos_range [] s of
        (Inl e, s') \<Rightarrow> (Inl e, s')
      | (Inr ones, s') \<Rightarrow> (Inr (sum_list ones), s'))"

definition other_side :: "piece call" where
  "other_side s = (Piece_other (turn_to_play s), s)"

definition in_capturing_seq :: "bool call" where
  "in_capturing_seq s = (Inr (last_dir s \<noteq> Dir_X), s)"

fun piece_exists_loop :: "params \<Rightarrow> piece \<Rightarrow> position list \<Rightarrow> bool call" where
  "piece_exists_loop P piece [] s = (Inr False, s)"
| "piece_exists_loop P piece (pos # rest) s =
     (case get_piece P pos s of
        (Inl e, s') \<Rightarrow> (Inl e, s')
      | (Inr q, s') \<Rightarrow>
          if q = piece then (Inr True, s') else piece_exists_loop P piece rest s')"

definition piece_exists :: "params \<Rightarrow> piece \<Rightarrow> bool call" where
  "piece_exists P piece s = piece_exists_loop P piece pos_range s"

definition is_done :: "params \<Rightarrow> bool call" where
  "is_done P s =
     (if half_moves s \<ge> MOVE_LIMIT P then (Inr True, s)
      else
        (case piece_exists P (turn_to_play s) s of
           (Inl e, s1) \<Rightarrow> (Inl e, s1)
         | (Inr own_piece_exists, s1) \<Rightarrow>
             (case other_side s1 of
                (Inl e, s2) \<Rightarrow> (Inl e, s2)
              | (Inr other, s2) \<Rightarrow>
                  (case piece_exists P other s2 of
                     (Inl e, s3) \<Rightarrow> (Inl e, s3)
                   | (Inr other_piece_exists, s3) \<Rightarrow>
                       if own_piece_exists \<and> other_piece_exists
                       then (Inr False, s3)
                       else (Inr True, s3)))))"

text \<open>\<^verbatim>\<open>utility\<close> returns either a reward tag or an integer score.\<close>

datatype utility_value = Outcome reward | Score int

definition utility :: "params \<Rightarrow> piece \<Rightarrow> utility_value call" where
  "utility P side s =
     (if half_moves s \<ge> MOVE_LIMIT P then (Inr (Outcome DRAW), s)
      else
        (case is_done P s of
           (Inl e, s1) \<Rightarrow> (Inl e, s1)
         | (Inr True, s1) \<Rightarrow>
             (case piece_exists P (turn_to_play s1) s1 of
                (Inl e, s2) \<Rightarrow> (Inl e, s2)
              | (Inr ex, s2) \<Rightarrow>
                  (case (if ex then (Inr (turn_to_play s2), s2) else other_side s2) of
                     (Inl e, s3) \<Rightarrow> (Inl e, s3)
                   | (Inr winner, s3) \<Rightarrow>
                       if side = winner then (Inr (Outcome WIN), s3)
                       else (Inr (Outcome LOSS), s3)))
         | (Inr False, s1) \<Rightarrow>
             (case count P side s1 of
                (Inl e, s2) \<Rightarrow> (Inl e, s2)
              | (Inr own, s2) \<Rightarrow>
                  (case Piece_other side of
                     Inl e \<Rightarrow> (Inl e, s2)
                   | Inr other \<Rightarrow>
                       (case count P other s2 of
                          (Inl e, s3) \<Rightarrow> (Inl e, s3)
                        | (Inr theirs, s3) \<Rightarrow> (Inr (Score (own - theirs)), s3))))))"

section \<open>Strings\<close>

text \<open>
  A string is a list of characters with codes from 0 to 255. The operations below are
  the built-in string operations that \<^verbatim>\<open>state.py\<close> calls, on such strings.
\<close>

text \<open>The characters that \<^verbatim>\<open>str.split()\<close> treats as white space.\<close>

definition is_space :: "char \<Rightarrow> bool" where
  "is_space c \<longleftrightarrow> (of_char c :: nat) \<in> {9, 10, 11, 12, 13, 28, 29, 30, 31, 32, 133, 160}"

text \<open>\<^verbatim>\<open>s.split()\<close>: the maximal runs of characters that are not white space.\<close>

fun split_ws :: "string \<Rightarrow> string \<Rightarrow> string list" where
  "split_ws cur [] = (if cur = [] then [] else [cur])"
| "split_ws cur (c # cs) =
     (if is_space c then (if cur = [] then split_ws [] cs else cur # split_ws [] cs)
      else split_ws (cur @ [c]) cs)"

definition py_split :: "string \<Rightarrow> string list" where
  "py_split s = split_ws [] s"

text \<open>\<^verbatim>\<open>s.split(sep)\<close> for a separator of one character.\<close>

fun split_sep :: "char \<Rightarrow> string \<Rightarrow> string \<Rightarrow> string list" where
  "split_sep sep cur [] = [cur]"
| "split_sep sep cur (c # cs) =
     (if c = sep then cur # split_sep sep [] cs else split_sep sep (cur @ [c]) cs)"

definition py_split_on :: "char \<Rightarrow> string \<Rightarrow> string list" where
  "py_split_on sep s = split_sep sep [] s"

text \<open>\<^verbatim>\<open>sep.join(xs)\<close>.\<close>

fun py_join :: "string \<Rightarrow> string list \<Rightarrow> string" where
  "py_join sep [] = []"
| "py_join sep [x] = x"
| "py_join sep (x # y # ys) = x @ sep @ py_join sep (y # ys)"

text \<open>\<^verbatim>\<open>s.rstrip(c)\<close> for one character \<open>c\<close>.\<close>

definition py_rstrip :: "char \<Rightarrow> string \<Rightarrow> string" where
  "py_rstrip c s = rev (dropWhile (\<lambda>x. x = c) (rev s))"

text \<open>\<^verbatim>\<open>str(i)\<close> for an integer: its decimal digits, after a minus sign when negative.
  Integers are unbounded; a limit that an interpreter may put on the number of digits
  converted is not modelled.\<close>

definition digit_char :: "nat \<Rightarrow> char" where
  "digit_char d = char_of (48 + d)"

fun digits_of :: "nat \<Rightarrow> string" where
  "digits_of n = (if n < 10 then [digit_char n] else digits_of (n div 10) @ [digit_char (n mod 10)])"

definition py_str :: "int \<Rightarrow> string" where
  "py_str i = (if i < 0 then CHR ''-'' # digits_of (nat (- i)) else digits_of (nat i))"

text \<open>
  \<^verbatim>\<open>int(s)\<close> for a string: white space around the numeral is dropped; the numeral is an
  optional sign and decimal digits, where one underscore may stand between two digits;
  anything else raises \<^verbatim>\<open>ValueError\<close>. The white space of \<^verbatim>\<open>int\<close> is that of
  \<^verbatim>\<open>str.split()\<close> without the four separator characters 28 to 31.
\<close>

definition is_digit :: "char \<Rightarrow> bool" where
  "is_digit c \<longleftrightarrow> 48 \<le> (of_char c :: nat) \<and> (of_char c :: nat) \<le> 57"

definition digit_val :: "char \<Rightarrow> nat" where
  "digit_val c = of_char c - 48"

fun parse_digits :: "nat \<Rightarrow> string \<Rightarrow> nat option" where
  "parse_digits acc [] = Some acc"
| "parse_digits acc [c] = (if is_digit c then Some (10 * acc + digit_val c) else None)"
| "parse_digits acc (c # d # ds) =
     (if is_digit c then parse_digits (10 * acc + digit_val c) (d # ds)
      else if c = CHR ''_'' \<and> is_digit d then parse_digits (10 * acc + digit_val d) ds
      else None)"

definition is_int_space :: "char \<Rightarrow> bool" where
  "is_int_space c \<longleftrightarrow> (of_char c :: nat) \<in> {9, 10, 11, 12, 13, 32, 133, 160}"

definition py_strip :: "string \<Rightarrow> string" where
  "py_strip s = rev (dropWhile is_int_space (rev (dropWhile is_int_space s)))"

definition py_int :: "string \<Rightarrow> py_error + int" where
  "py_int s =
     (let t = py_strip s;
          neg = (case t of c # _ \<Rightarrow> c = CHR ''-'' | [] \<Rightarrow> False);
          body = (case t of c # r \<Rightarrow> if c = CHR ''-'' \<or> c = CHR ''+'' then r else t | [] \<Rightarrow> [])
      in case body of
           [] \<Rightarrow> Inl ValueError
         | d # ds \<Rightarrow>
             if is_digit d
             then (case parse_digits (digit_val d) ds of
                     None \<Rightarrow> Inl ValueError
                   | Some n \<Rightarrow> Inr (if neg then - int n else int n))
             else Inl ValueError)"

section \<open>Sequence bookkeeping\<close>

fun reset_loop :: "position list \<Rightarrow> unit call" where
  "reset_loop [] s = (Inr (), s)"
| "reset_loop (pos # rest) s =
     (case to_coords pos of
        (r, c) \<Rightarrow>
          (case np_set2 (visited s) r c False of
             Inl e \<Rightarrow> (Inl e, s)
           | Inr v \<Rightarrow> reset_loop rest (s\<lparr>visited := v\<rparr>)))"

definition reset_visited_pos :: "unit call" where
  "reset_visited_pos s = reset_loop pos_range s"

section \<open>Decoding a notation string\<close>

text \<open>The inner loop \<^verbatim>\<open>for col_board in range(col_board, col_board + int(cell))\<close>: it
  writes EMPTY at each index and leaves the loop variable at the last index.\<close>

fun fill_empty ::
  "params \<Rightarrow> int \<Rightarrow> int list \<Rightarrow> int list list \<times> int \<Rightarrow> py_error + int list list \<times> int" where
  "fill_empty P r [] acc = Inr acc"
| "fill_empty P r (k # ks) (board, col_board) =
     (case np_set2 board r k (Piece_value P EMPTY) of
        Inl e \<Rightarrow> Inl e
      | Inr board' \<Rightarrow> fill_empty P r ks (board', k))"

text \<open>The loop over the characters of one row.\<close>

fun decode_cells ::
  "params \<Rightarrow> int \<Rightarrow> string \<Rightarrow> int list list \<times> int \<Rightarrow> py_error + int list list \<times> int" where
  "decode_cells P r [] acc = Inr acc"
| "decode_cells P r (cell # cells) (board, col_board) =
     (case
        (if cell = CHR ''W'' then
           (case np_set2 board r col_board (Piece_value P WHITE) of
              Inl e \<Rightarrow> Inl e
            | Inr board' \<Rightarrow> Inr (board', col_board))
         else if cell = CHR ''B'' then
           (case np_set2 board r col_board (Piece_value P BLACK) of
              Inl e \<Rightarrow> Inl e
            | Inr board' \<Rightarrow> Inr (board', col_board))
         else
           (case py_int [cell] of
              Inl e \<Rightarrow> Inl e
            | Inr n \<Rightarrow> fill_empty P r [col_board..col_board + n - 1] (board, col_board)))
      of
        Inl e \<Rightarrow> Inl e
      | Inr (board', col_board') \<Rightarrow> decode_cells P r cells (board', col_board' + 1))"

text \<open>The loop over the enumerated rows.\<close>

fun decode_rows ::
  "params \<Rightarrow> int \<Rightarrow> string list \<Rightarrow> int list list \<Rightarrow> py_error + int list list" where
  "decode_rows P r [] board = Inr board"
| "decode_rows P r (row_content # rest) board =
     (case decode_cells P r row_content (board, 0) of
        Inl e \<Rightarrow> Inl e
      | Inr (board', _) \<Rightarrow> decode_rows P (r + 1) rest board')"

definition process_board_state_str :: "params \<Rightarrow> string \<Rightarrow> py_error + int list list" where
  "process_board_state_str P board_state_str =
     decode_rows P 0 (py_split_on (CHR ''/'') board_state_str)
       (replicate BOARD_ROWS (replicate BOARD_COLS 0))"

fun mark_visited :: "string list \<Rightarrow> bool list list \<Rightarrow> py_error + bool list list" where
  "mark_visited [] v = Inr v"
| "mark_visited (human_pos # rest) v =
     (case Position_of_human human_pos of
        Inl e \<Rightarrow> Inl e
      | Inr pos \<Rightarrow>
          (case to_coords pos of
             (r, c) \<Rightarrow>
               (case np_set2 v r c True of
                  Inl e \<Rightarrow> Inl e
                | Inr v' \<Rightarrow> mark_visited rest v')))"

definition process_visited_pos_str :: "string \<Rightarrow> py_error + bool list list" where
  "process_visited_pos_str visited_pos_str =
     (if visited_pos_str \<noteq> ''-''
      then mark_visited (py_split_on (CHR '','') visited_pos_str)
             (replicate BOARD_ROWS (replicate BOARD_COLS False))
      else Inr (replicate BOARD_ROWS (replicate BOARD_COLS False)))"

text \<open>The static constructor: it reads no state and returns a fresh one, or the error.\<close>

definition set_from_board_str :: "params \<Rightarrow> string \<Rightarrow> py_error + FanoronaState" where
  "set_from_board_str P board_string =
     (case py_split board_string of
        [board_state_str, turn_to_play_str, last_dir_str, visited_pos_str, half_moves_str] \<Rightarrow>
          (case process_board_state_str P board_state_str of
             Inl e \<Rightarrow> Inl e
           | Inr board \<Rightarrow>
               (case (if last_dir_str \<noteq> ''-'' then Direction_of_name last_dir_str else Inr Dir_X) of
                  Inl e \<Rightarrow> Inl e
                | Inr dir \<Rightarrow>
                    (case process_visited_pos_str visited_pos_str of
                       Inl e \<Rightarrow> Inl e
                     | Inr vis \<Rightarrow>
                         (case py_int half_moves_str of
                            Inl e \<Rightarrow> Inl e
                          | Inr n \<Rightarrow>
                              Inr \<lparr>board_state = board,
                                   turn_to_play = (if turn_to_play_str = ''W'' then WHITE else BLACK),
                                   last_dir = dir,
                                   visited = vis,
                                   half_moves = n\<rparr>))))
      | _ \<Rightarrow> Inl ValueError)"

section \<open>Encoding a state\<close>

text \<open>The loop over the cells of one row; it carries the string built so far and the
  number of EMPTY cells seen since the last token.\<close>

fun encode_cols :: "params \<Rightarrow> int list \<Rightarrow> string \<times> int \<Rightarrow> py_error + string \<times> int" where
  "encode_cols P [] acc = Inr acc"
| "encode_cols P (c # cs) (board_string, cnt) =
     (case Piece_of P c of
        Inl e \<Rightarrow> Inl e
      | Inr p \<Rightarrow>
          (let col_str = Piece_str P p
           in if c = Piece_value P EMPTY then encode_cols P cs (board_string, cnt + 1)
              else
                (case (if cnt > 0 then (board_string @ py_str cnt, 0) else (board_string, cnt)) of
                   (board_string', cnt') \<Rightarrow> encode_cols P cs (board_string' @ col_str, cnt'))))"

text \<open>The loop over the rows.\<close>

fun encode_rows :: "params \<Rightarrow> int list list \<Rightarrow> string \<times> int \<Rightarrow> py_error + string \<times> int" where
  "encode_rows P [] acc = Inr acc"
| "encode_rows P (line # rest) acc =
     (case encode_cols P line acc of
        Inl e \<Rightarrow> Inl e
      | Inr (board_string, cnt) \<Rightarrow>
          (case (if cnt > 0 then (board_string @ py_str cnt, 0) else (board_string, cnt)) of
             (board_string', cnt') \<Rightarrow> encode_rows P rest (board_string' @ ''/'', cnt')))"

definition encode_board :: "params \<Rightarrow> int list list \<Rightarrow> py_error + string" where
  "encode_board P board =
     (case encode_rows P board ([], 0) of
        Inl e \<Rightarrow> Inl e
      | Inr (board_string, cnt) \<Rightarrow>
          (let board_string' = py_rstrip (CHR ''/'') board_string
           in Inr (if cnt > 0 then board_string' @ py_str cnt else board_string')))"

text \<open>The two enumerated loops over the visited array.\<close>

fun visited_cols :: "int \<Rightarrow> int \<Rightarrow> bool list \<Rightarrow> string list \<Rightarrow> py_error + string list" where
  "visited_cols row_idx col_idx [] visited_pos_list = Inr visited_pos_list"
| "visited_cols row_idx col_idx (v # vs) visited_pos_list =
     (if v then
        (case Position_of_coords (row_idx, col_idx) of
           Inl e \<Rightarrow> Inl e
         | Inr pos \<Rightarrow> visited_cols row_idx (col_idx + 1) vs (visited_pos_list @ [to_human pos]))
      else visited_cols row_idx (col_idx + 1) vs visited_pos_list)"

fun visited_rows :: "int \<Rightarrow> bool list list \<Rightarrow> string list \<Rightarrow> py_error + string list" where
  "visited_rows row_idx [] visited_pos_list = Inr visited_pos_list"
| "visited_rows row_idx (line # rest) visited_pos_list =
     (case visited_cols row_idx 0 line visited_pos_list of
        Inl e \<Rightarrow> Inl e
      | Inr visited_pos_list' \<Rightarrow> visited_rows (row_idx + 1) rest visited_pos_list')"

definition get_board_str :: "params \<Rightarrow> string call" where
  "get_board_str P s =
     (case encode_board P (board_state s) of
        Inl e \<Rightarrow> (Inl e, s)
      | Inr board_string \<Rightarrow>
          (let turn_to_play_str = Piece_str P (turn_to_play s);
               last_dir_str = Direction_str (last_dir s)
           in case visited_rows 0 (visited s) [] of
                Inl e \<Rightarrow> (Inl e, s)
              | Inr visited_pos_list \<Rightarrow>
                  (let visited_pos_str =
                         (if visited_pos_list = [] then ''-''
                          else py_join '','' visited_pos_list)
                   in (Inr (py_join '' ''
                              [board_string, turn_to_play_str, last_dir_str,
                               visited_pos_str, py_str (half_moves s)]), s))))"

section \<open>Well-formed states\<close>

text \<open>
  A valid board state: a 5 by 9 board array whose cells hold values of pieces, a side to
  move that is WHITE or BLACK, a 5 by 9 visited array, a non-negative half-move count.
\<close>

definition valid_state :: "params \<Rightarrow> FanoronaState \<Rightarrow> bool" where
  "valid_state P s \<longleftrightarrow>
     length (board_state s) = BOARD_ROWS \<and>
     list_all (\<lambda>line. length line = BOARD_COLS \<and>
                 list_all (\<lambda>v. v \<in> set (map (Piece_value P) [WHITE, BLACK, EMPTY])) line)
       (board_state s) \<and>
     turn_to_play s \<noteq> EMPTY \<and>
     length (visited s) = BOARD_ROWS \<and>
     list_all (\<lambda>line. length line = BOARD_COLS) (visited s) \<and>
     0 \<le> half_moves s"

section \<open>Notions used to state the properties\<close>

text \<open>A position inside the grid, and the cell of the board array that it addresses.\<close>

definition in_grid :: "position \<Rightarrow> bool" where
  "in_grid pos \<longleftrightarrow>
     0 \<le> row pos \<and> row pos < int BOARD_ROWS \<and> 0 \<le> col pos \<and> col pos < int BOARD_COLS"

definition cell_at :: "FanoronaState \<Rightarrow> position \<Rightarrow> int" where
  "cell_at s pos = board_state s ! nat (row pos) ! nat (col pos)"

text \<open>A side has a piece on the board; the number of cells that hold a piece of a side.\<close>

definition has_piece :: "params \<Rightarrow> FanoronaState \<Rightarrow> piece \<Rightarrow> bool" where
  "has_piece P s p \<longleftrightarrow> Piece_value P p \<in> set (concat (board_state s))"

definition material :: "params \<Rightarrow> FanoronaState \<Rightarrow> piece \<Rightarrow> int" where
  "material P s p = int (length (filter (\<lambda>v. v = Piece_value P p) (concat (board_state s))))"

text \<open>A 5 by 9 array; writing one value at a list of cells; the indices of a position.\<close>

definition grid_ok :: "'a list list \<Rightarrow> bool" where
  "grid_ok g \<longleftrightarrow> length g = BOARD_ROWS \<and> list_all (\<lambda>line. length line = BOARD_COLS) g"

fun put_all :: "'a \<Rightarrow> (nat \<times> nat) list \<Rightarrow> 'a list list \<Rightarrow> 'a list list" where
  "put_all v [] g = g"
| "put_all v (rc # rcs) g = put_all v rcs (g[fst rc := (g ! fst rc)[snd rc := v]])"

definition coords_of :: "position \<Rightarrow> nat \<times> nat" where
  "coords_of pos = (nat (row pos), nat (col pos))"

text \<open>One step of reading a numeral from the left.\<close>

definition digit_step :: "nat \<Rightarrow> char \<Rightarrow> nat" where
  "digit_step acc c = 10 * acc + digit_val c"

section \<open>The notation, as the specification words it\<close>

text \<open>
  The board array read as pieces: the piece whose value each cell holds.
\<close>

definition cell_piece :: "params \<Rightarrow> int \<Rightarrow> piece" where
  "cell_piece P v = (case Piece_of P v of Inr p \<Rightarrow> p | Inl _ \<Rightarrow> EMPTY)"

definition grid_pieces :: "params \<Rightarrow> FanoronaState \<Rightarrow> piece list list" where
  "grid_pieces P s = map (map (cell_piece P)) (board_state s)"

text \<open>
  The board string in the specification's words: in each row every maximal run of
  consecutive EMPTY cells becomes one decimal count and every occupied cell becomes its
  piece letter; the rows are joined with \<^verbatim>\<open>/\<close>. A run is counted where it starts, so
  it is written before the piece letter, the row separator or the end of the string
  that follows it, and a count is never zero.
\<close>

function spec_row_string :: "params \<Rightarrow> piece list \<Rightarrow> string" where
  "spec_row_string P [] = []"
| "spec_row_string P (p # ps) =
     (if p = EMPTY
      then py_str (int (length (takeWhile (\<lambda>q. q = EMPTY) (p # ps))))
             @ spec_row_string P (dropWhile (\<lambda>q. q = EMPTY) ps)
      else Piece_str P p @ spec_row_string P ps)"
  by pat_completeness auto
termination
  by (relation "measure (\<lambda>(P, ps). length ps)") (auto simp: less_Suc_eq_le length_dropWhile_le)

definition spec_board_string :: "params \<Rightarrow> piece list list \<Rightarrow> string" where
  "spec_board_string P G = py_join ''/'' (map (spec_row_string P) G)"

section \<open>Notions used in the proofs of the codec\<close>

text \<open>The count that is pending in the encoder, as text; a segment written over a list
  from an index on; the positions of the true cells of a visited array, in row-major
  order.\<close>

definition flush :: "nat \<Rightarrow> string" where
  "flush n = (if n > 0 then py_str (int n) else [])"

text \<open>The characters of the rows that the encoder writes: a piece letter or a non-zero
  digit.\<close>

definition tok_char :: "char \<Rightarrow> bool" where
  "tok_char c \<longleftrightarrow> is_digit c \<and> c \<noteq> CHR ''0'' \<or> c = CHR ''W'' \<or> c = CHR ''B''"

definition patch :: "nat \<Rightarrow> 'a list \<Rightarrow> 'a list \<Rightarrow> 'a list" where
  "patch k xs line = take k line @ xs @ drop (k + length xs) line"

fun row_positions :: "nat \<Rightarrow> nat \<Rightarrow> bool list \<Rightarrow> position list" where
  "row_positions r c [] = []"
| "row_positions r c (b # bs) =
     (if b then [\<lparr>row = int r, col = int c\<rparr>] else []) @ row_positions r (Suc c) bs"

fun grid_positions :: "nat \<Rightarrow> bool list list \<Rightarrow> position list" where
  "grid_positions r [] = []"
| "grid_positions r (line # rest) = row_positions r 0 line @ grid_positions (Suc r) rest"

section \<open>What a board string makes the decoder write\<close>






section \<open>Example values\<close>

text \<open>One choice of the parameters, and three states: a position in the middle of a
  capturing sequence, the same position with WHITE captured entirely, and the same
  position at the move limit.\<close>

definition example_params :: params where
  "example_params =
     \<lparr>MOVE_LIMIT = 45,
      Piece_value = (\<lambda>p. case p of WHITE \<Rightarrow> 0 | BLACK \<Rightarrow> 1 | EMPTY \<Rightarrow> 2),
      Piece_str_EMPTY = ''E''\<rparr>"

definition example_state :: FanoronaState where
  "example_state =
     \<lparr>board_state =
        [[0, 0, 0, 0, 0, 0, 0, 0, 0],
         [0, 0, 0, 2, 0, 0, 0, 0, 0],
         [1, 0, 1, 2, 0, 2, 0, 1, 0],
         [1, 1, 1, 2, 2, 1, 1, 1, 1],
         [1, 1, 1, 1, 1, 1, 1, 1, 1]],
      turn_to_play = WHITE,
      last_dir = Dir_S,
      visited =
        [[False, False, False, False, False, False, False, False, False],
         [False, False, False, True, False, False, False, False, False],
         [False, False, False, False, True, False, False, False, False],
         [False, False, False, False, False, False, False, False, False],
         [False, False, False, False, False, False, False, False, False]],
      half_moves = 3\<rparr>"

definition example_lost :: FanoronaState where
  "example_lost =
     example_state\<lparr>board_state :=
        [[2, 2, 2, 2, 2, 2, 2, 2, 2],
         [2, 2, 2, 2, 2, 2, 2, 2, 2],
         [1, 2, 1, 2, 2, 2, 2, 1, 2],
         [1, 1, 1, 2, 2, 1, 1, 1, 1],
         [1, 1, 1, 1, 1, 1, 1, 1, 1]]\<rparr>"

definition example_drawn :: FanoronaState where
  "example_drawn = example_state\<lparr>half_moves := 45\<rparr>"

text \<open>The state that the notation of an empty board describes.\<close>

definition empty_board_state :: "params \<Rightarrow> FanoronaState" where
  "empty_board_state P =
     \<lparr>board_state = replicate BOARD_ROWS (replicate BOARD_COLS (Piece_value P EMPTY)),
      turn_to_play = WHITE,
      last_dir = Dir_X,
      visited = replicate BOARD_ROWS (replicate BOARD_COLS False),
      half_moves = 0\<rparr>"

section \<open>Strings: printing and reading numerals, joining and splitting\<close>

declare digits_of.simps [simp del]

lemma digit_char_props:
  "d < 10 \<Longrightarrow> is_digit (digit_char d) \<and> digit_val (digit_char d) = d \<and> \<not> is_space (digit_char d)"
  by (auto simp: is_digit_def digit_val_def digit_char_def is_space_def)

lemma digits_of_digits: "list_all is_digit (digits_of n)"
proof (induction n rule: digits_of.induct)
  case (1 n)
  show ?case
  proof (cases "n < 10")
    case True
    then show ?thesis using digits_of.simps[of n] by (simp add: digit_char_props)
  next
    case False
    then show ?thesis using 1 digits_of.simps[of n] by (simp add: digit_char_props)
  qed
qed

lemma digits_of_nonempty: "digits_of n \<noteq> []"
  using digits_of.simps[of n] by (cases "n < 10") simp_all

lemma parse_digits_Cons:
  "is_digit d \<Longrightarrow> parse_digits acc (d # ds) = parse_digits (digit_step acc d) ds"
  by (cases ds) (simp_all add: digit_step_def)

lemma parse_digits_all:
  "list_all is_digit ds \<Longrightarrow> parse_digits acc ds = Some (foldl digit_step acc ds)"
  by (induction ds arbitrary: acc) (simp_all add: parse_digits_Cons)

lemma foldl_digits_of: "foldl digit_step 0 (digits_of n) = n"
proof (induction n rule: digits_of.induct)
  case (1 n)
  show ?case
  proof (cases "n < 10")
    case True
    then show ?thesis using digits_of.simps[of n] by (simp add: digit_step_def digit_char_props)
  next
    case False
    then show ?thesis using 1 digits_of.simps[of n]
      by (simp add: digit_step_def digit_char_props)
  qed
qed

lemma is_digit_not_space: "is_digit c \<Longrightarrow> \<not> is_space c"
  by (auto simp: is_digit_def is_space_def)

lemma is_digit_not_sign: "is_digit c \<Longrightarrow> c \<noteq> CHR ''-'' \<and> c \<noteq> CHR ''+''"
  by (auto simp: is_digit_def)

lemma is_digit_not_int_space: "is_digit c \<Longrightarrow> \<not> is_int_space c"
  by (auto simp: is_digit_def is_int_space_def)

lemma py_strip_id:
  assumes "s \<noteq> []" "\<not> is_int_space (hd s)" "\<not> is_int_space (last s)"
  shows "py_strip s = s"
proof -
  have a: "dropWhile is_int_space s = s" using assms(1,2) by (cases s) simp_all
  have "dropWhile is_int_space (rev s) = rev s"
    using assms(1,3) by (cases "rev s") (simp_all add: last_rev[symmetric] hd_rev)
  then show ?thesis using a by (simp add: py_strip_def)
qed

lemma py_int_digits:
  assumes "list_all is_digit ds" "ds \<noteq> []"
  shows "py_int ds = Inr (int (foldl digit_step 0 ds))"
proof -
  obtain d rest where ds: "ds = d # rest" using assms(2) by (cases ds) auto
  have d: "is_digit d" and rest: "list_all is_digit rest" using assms(1) ds by simp_all
  have "is_digit (last ds)" using assms by (simp add: list_all_iff)
  then have strip: "py_strip ds = ds"
    using assms(2) d ds by (intro py_strip_id) (simp_all add: is_digit_not_int_space)
  have p: "parse_digits (digit_val d) rest = Some (foldl digit_step 0 ds)"
    using parse_digits_all[OF rest, of "digit_val d"] ds by (simp add: digit_step_def)
  show ?thesis using strip ds d p is_digit_not_sign[OF d] by (simp add: py_int_def)
qed

lemma py_int_py_str: "0 \<le> i \<Longrightarrow> py_int (py_str i) = Inr i"
  using py_int_digits[OF digits_of_digits digits_of_nonempty, of "nat i"]
  by (simp add: py_str_def foldl_digits_of)

lemma py_str_no_space: "0 \<le> i \<Longrightarrow> list_all (\<lambda>c. \<not> is_space c) (py_str i)"
  using digits_of_digits[of "nat i"] by (auto simp: py_str_def list_all_iff is_digit_not_space)

lemma py_str_nonempty: "py_str i \<noteq> []"
  by (simp add: py_str_def digits_of_nonempty)

lemma py_str_small: "0 < i \<Longrightarrow> i < 10 \<Longrightarrow> py_str i = [digit_char (nat i)]"
proof -
  assume "0 < i" "i < 10"
  then have "nat i < 10" by simp
  then show ?thesis using \<open>0 < i\<close> digits_of.simps[of "nat i"] by (simp add: py_str_def)
qed

lemma split_ws_append:
  "list_all (\<lambda>c. \<not> is_space c) f \<Longrightarrow> split_ws cur (f @ rest) = split_ws (cur @ f) rest"
  by (induction f arbitrary: cur) simp_all

lemma split_ws_field:
  assumes "list_all (\<lambda>c. \<not> is_space c) f" "f \<noteq> []"
  shows "split_ws [] (f @ CHR '' '' # rest) = f # split_ws [] rest"
  using assms split_ws_append[OF assms(1), of "[]" "CHR '' '' # rest"]
  by (simp add: is_space_def)

lemma split_ws_last:
  assumes "list_all (\<lambda>c. \<not> is_space c) f" "f \<noteq> []"
  shows "split_ws [] f = [f]"
  using assms split_ws_append[OF assms(1), of "[]" "[]"] by simp

lemma py_split_join5:
  assumes "list_all (\<lambda>f. f \<noteq> [] \<and> list_all (\<lambda>c. \<not> is_space c) f) [a, b, c, d, e]"
  shows "py_split (py_join '' '' [a, b, c, d, e]) = [a, b, c, d, e]"
  using assms by (simp add: py_split_def split_ws_field split_ws_last)

lemma split_sep_append:
  "sep \<notin> set f \<Longrightarrow> split_sep sep cur (f @ rest) = split_sep sep (cur @ f) rest"
  by (induction f arbitrary: cur) auto

lemma split_sep_join:
  "list_all (\<lambda>f. sep \<notin> set f) (x # fs) \<Longrightarrow>
     split_sep sep [] (py_join [sep] (x # fs)) = x # fs"
proof (induction fs arbitrary: x)
  case Nil
  then show ?case using split_sep_append[of sep x "[]" "[]"] by simp
next
  case (Cons y ys)
  then show ?case
    using split_sep_append[of sep x "[]" "sep # py_join [sep] (y # ys)"] by simp
qed

lemma py_split_on_join:
  "fs \<noteq> [] \<Longrightarrow> list_all (\<lambda>f. sep \<notin> set f) fs \<Longrightarrow> py_split_on sep (py_join [sep] fs) = fs"
  using split_sep_join[of sep "hd fs" "tl fs"] by (cases fs) (simp_all add: py_split_on_def)


section \<open>The queries on a valid state\<close>

lemma Piece_of_value: "wf_params P \<Longrightarrow> Piece_of P (Piece_value P p) = Inr p"
  by (cases p) (auto simp: wf_params_def Piece_of_def)

lemma Piece_of_Inr: "Piece_of P v = Inr p \<Longrightarrow> v = Piece_value P p"
  by (auto simp: Piece_of_def split: if_splits)

lemma np_get_nat: "k < length xs \<Longrightarrow> np_get xs (int k) = Inr (xs ! k)"
  by (simp add: np_get_def np_index_def)

lemma get_piece_in_range:
  assumes "wf_params P" "valid_state P s" "r < BOARD_ROWS" "c < BOARD_COLS"
  shows "get_piece P \<lparr>row = int r, col = int c\<rparr> s =
           (Piece_of P (board_state s ! r ! c), s)
         \<and> (\<exists>p. Piece_of P (board_state s ! r ! c) = Inr p)"
proof -
  have len: "length (board_state s) = BOARD_ROWS" using assms(2) by (simp add: valid_state_def)
  have mem: "board_state s ! r \<in> set (board_state s)" using len assms(3) by simp
  have line: "length (board_state s ! r) = BOARD_COLS"
    using assms(2) mem by (auto simp: valid_state_def list_all_iff)
  have "board_state s ! r ! c \<in> set (board_state s ! r)" using line assms(4) by simp
  then have "board_state s ! r ! c \<in> set (map (Piece_value P) [WHITE, BLACK, EMPTY])"
    using assms(2) mem by (auto simp: valid_state_def list_all_iff)
  then obtain p where "board_state s ! r ! c = Piece_value P p" by auto
  then have "Piece_of P (board_state s ! r ! c) = Inr p" using assms(1) by (simp add: Piece_of_value)
  then show ?thesis using len line assms(3,4) by (simp add: get_piece_def np_get_nat)
qed

lemma get_piece_in_grid:
  assumes "wf_params P" "valid_state P s" "in_grid pos"
  shows "\<exists>p. get_piece P pos s = (Inr p, s) \<and> Piece_value P p = cell_at s pos"
proof -
  have r: "nat (row pos) < BOARD_ROWS" and c: "nat (col pos) < BOARD_COLS"
    using assms(3) by (auto simp: in_grid_def)
  have eq: "\<lparr>row = int (nat (row pos)), col = int (nat (col pos))\<rparr> = pos"
    using assms(3) by (simp add: in_grid_def)
  from get_piece_in_range[OF assms(1,2) r c]
  obtain p where "get_piece P pos s = (Inr p, s)"
    and "Piece_of P (board_state s ! nat (row pos) ! nat (col pos)) = Inr p"
    unfolding eq by auto
  then show ?thesis using Piece_of_Inr[of P _ p] by (auto simp: cell_at_def)
qed

lemma piece_exists_loop_in_grid:
  assumes "wf_params P" "valid_state P s"
  shows "list_all in_grid ps \<Longrightarrow>
     piece_exists_loop P piece ps s = (Inr (Piece_value P piece \<in> set (map (cell_at s) ps)), s)"
proof (induction ps)
  case Nil
  then show ?case by simp
next
  case (Cons pos ps)
  then have "in_grid pos" by simp
  from get_piece_in_grid[OF assms this]
  obtain p where p: "get_piece P pos s = (Inr p, s)" "Piece_value P p = cell_at s pos" by blast
  have inj: "Piece_value P p = Piece_value P piece \<longleftrightarrow> p = piece"
    using assms(1) by (cases p; cases piece) (auto simp: wf_params_def)
  show ?case using Cons p inj by auto
qed

lemma count_loop_in_grid:
  assumes "wf_params P" "valid_state P s"
  shows "list_all in_grid ps \<Longrightarrow>
     count_loop P side ps acc s =
       (Inr (acc @ replicate (length (filter (\<lambda>v. v = Piece_value P side) (map (cell_at s) ps))) 1), s)"
proof (induction ps arbitrary: acc)
  case Nil
  then show ?case by simp
next
  case (Cons pos ps)
  then have "in_grid pos" by simp
  from get_piece_in_grid[OF assms this]
  obtain p where p: "get_piece P pos s = (Inr p, s)" "Piece_value P p = cell_at s pos" by blast
  have inj: "Piece_value P p = Piece_value P side \<longleftrightarrow> p = side"
    using assms(1) by (cases p; cases side) (auto simp: wf_params_def)
  show ?case using Cons p inj by (auto simp: replicate_append_same)
qed

lemma pos_range_in_grid: "list_all in_grid pos_range"
  by (auto simp: pos_range_def list_all_iff in_grid_def)

lemma cells_pos_range:
  assumes "valid_state P s"
  shows "map (cell_at s) pos_range = concat (board_state s)"
proof -
  have len: "length (board_state s) = BOARD_ROWS" using assms by (simp add: valid_state_def)
  have line: "\<And>r. r < BOARD_ROWS \<Longrightarrow> length (board_state s ! r) = BOARD_COLS"
    using assms len by (auto simp: valid_state_def list_all_iff)
  have "map (cell_at s) pos_range =
          concat (map (\<lambda>r. map (\<lambda>c. board_state s ! r ! c) [0..<BOARD_COLS]) [0..<BOARD_ROWS])"
    by (simp add: pos_range_def map_concat comp_def cell_at_def)
  also have "\<dots> = concat (map (\<lambda>r. board_state s ! r) [0..<BOARD_ROWS])"
  proof -
    have "map (\<lambda>r. map (\<lambda>c. board_state s ! r ! c) [0..<BOARD_COLS]) [0..<BOARD_ROWS]
        = map (\<lambda>r. board_state s ! r) [0..<BOARD_ROWS]"
    proof (rule map_cong[OF refl])
      fix r assume "r \<in> set [0..<BOARD_ROWS]"
      then have "length (board_state s ! r) = BOARD_COLS" using line by simp
      then show "map (\<lambda>c. board_state s ! r ! c) [0..<BOARD_COLS] = board_state s ! r"
        using map_nth[of "board_state s ! r"] by simp
    qed
    then show ?thesis by (rule arg_cong)
  qed
  also have "\<dots> = concat (board_state s)"
    using len map_nth[of "board_state s"] by simp
  finally show ?thesis .
qed

lemma piece_exists_eq:
  assumes "wf_params P" "valid_state P s"
  shows "piece_exists P piece s = (Inr (has_piece P s piece), s)"
  using piece_exists_loop_in_grid[OF assms pos_range_in_grid] cells_pos_range[OF assms(2)]
  by (simp add: piece_exists_def has_piece_def)

lemma count_eq:
  assumes "wf_params P" "valid_state P s"
  shows "count P side s = (Inr (material P s side), s)"
  using count_loop_in_grid[OF assms pos_range_in_grid, of side "[]"] cells_pos_range[OF assms(2)]
  by (simp add: count_def material_def sum_list_replicate)

lemma is_done_eq:
  assumes "wf_params P" "valid_state P s"
  shows "is_done P s =
     (Inr (half_moves s \<ge> MOVE_LIMIT P \<or> \<not> has_piece P s (turn_to_play s)
           \<or> (\<forall>p. Piece_other (turn_to_play s) = Inr p \<longrightarrow> \<not> has_piece P s p)), s)"
proof -
  have "turn_to_play s \<noteq> EMPTY" using assms(2) by (simp add: valid_state_def)
  then show ?thesis
    by (cases "turn_to_play s") (auto simp: is_done_def piece_exists_eq[OF assms] other_side_def)
qed

lemma utility_eq:
  assumes "wf_params P" "valid_state P s" "half_moves s < MOVE_LIMIT P"
  shows "utility P side s =
     (if has_piece P s WHITE \<and> has_piece P s BLACK
      then (case Piece_other side of
              Inl e \<Rightarrow> Inl e
            | Inr other \<Rightarrow> Inr (Score (material P s side - material P s other)))
      else Inr (Outcome (if side = (if has_piece P s (turn_to_play s) then turn_to_play s
                                   else if turn_to_play s = WHITE then BLACK else WHITE)
                         then WIN else LOSS)), s)"
proof -
  have t: "turn_to_play s \<noteq> EMPTY" using assms(2) by (simp add: valid_state_def)
  show ?thesis
  proof (cases "turn_to_play s")
    case WHITE
    then show ?thesis using assms(3)
      by (auto simp: utility_def is_done_eq[OF assms(1,2)] piece_exists_eq[OF assms(1,2)]
            count_eq[OF assms(1,2)] other_side_def split: sum.splits)
  next
    case BLACK
    then show ?thesis using assms(3)
      by (auto simp: utility_def is_done_eq[OF assms(1,2)] piece_exists_eq[OF assms(1,2)]
            count_eq[OF assms(1,2)] other_side_def split: sum.splits)
  next
    case EMPTY
    then show ?thesis using t by simp
  qed
qed

section \<open>Terminal states\<close>

text \<open>
  Claim C3. On a valid state \<^verbatim>\<open>is_done\<close> returns true exactly when the half-move counter
  has reached the move limit, or the side to move has no piece on the board, or its
  opponent has none.
\<close>

theorem is_done_iff:
  assumes "wf_params P" "valid_state P s"
  shows "\<exists>opp. Piece_other (turn_to_play s) = Inr opp \<and>
           fst (is_done P s) =
             Inr (half_moves s \<ge> MOVE_LIMIT P \<or> \<not> has_piece P s (turn_to_play s)
                  \<or> \<not> has_piece P s opp)"
proof -
  have "turn_to_play s \<noteq> EMPTY" using assms(2) by (simp add: valid_state_def)
  then show ?thesis
    by (cases "turn_to_play s") (simp_all add: is_done_eq[OF assms])
qed


theorem is_done_iff_witness:
  "wf_params example_params \<and> valid_state example_params example_state
   \<and> fst (is_done example_params example_state) = Inr False
   \<and> valid_state example_params example_lost
   \<and> fst (is_done example_params example_lost) = Inr True"
  using is_done_iff [of example_params example_state] is_done_iff [of example_params example_lost]
  by (simp add: wf_params_def valid_state_def has_piece_def example_params_def
        example_state_def example_lost_def BOARD_ROWS_def BOARD_COLS_def)

section \<open>The shape of the utility\<close>

text \<open>
  Claim C2. On a valid state below the move limit: when both sides have a piece,
  \<^verbatim>\<open>utility\<close> of a side is the integer difference between the number of its pieces and
  the number of its opponent's; when a side has none, one of \<^verbatim>\<open>utility(WHITE)\<close> and
  \<^verbatim>\<open>utility(BLACK)\<close> is WIN and the other is LOSS, and a side that still has pieces is
  the winner.
\<close>

theorem utility_shape:
  assumes "wf_params P" "valid_state P s" "half_moves s < MOVE_LIMIT P"
  shows "(has_piece P s WHITE \<and> has_piece P s BLACK \<longrightarrow>
            fst (utility P WHITE s) = Inr (Score (material P s WHITE - material P s BLACK)) \<and>
            fst (utility P BLACK s) = Inr (Score (material P s BLACK - material P s WHITE)))
       \<and> (\<not> (has_piece P s WHITE \<and> has_piece P s BLACK) \<longrightarrow>
            (fst (utility P WHITE s) = Inr (Outcome WIN) \<and> fst (utility P BLACK s) = Inr (Outcome LOSS)
             \<or> fst (utility P WHITE s) = Inr (Outcome LOSS) \<and> fst (utility P BLACK s) = Inr (Outcome WIN))
            \<and> (has_piece P s WHITE \<longrightarrow> fst (utility P WHITE s) = Inr (Outcome WIN))
            \<and> (has_piece P s BLACK \<longrightarrow> fst (utility P BLACK s) = Inr (Outcome WIN)))"
proof -
  have t: "turn_to_play s = WHITE \<or> turn_to_play s = BLACK"
    using assms(2) by (cases "turn_to_play s") (simp_all add: valid_state_def)
  show ?thesis using t by (auto simp: utility_eq[OF assms])
qed


theorem utility_shape_witness:
  "wf_params example_params \<and> valid_state example_params example_state
   \<and> half_moves example_state < MOVE_LIMIT example_params
   \<and> has_piece example_params example_state WHITE \<and> has_piece example_params example_state BLACK
   \<and> fst (utility example_params WHITE example_state) = Inr (Score 2)
   \<and> fst (utility example_params BLACK example_state) = Inr (Score (- 2))
   \<and> valid_state example_params example_lost
   \<and> half_moves example_lost < MOVE_LIMIT example_params
   \<and> \<not> has_piece example_params example_lost WHITE \<and> has_piece example_params example_lost BLACK
   \<and> fst (utility example_params WHITE example_lost) = Inr (Outcome LOSS)
   \<and> fst (utility example_params BLACK example_lost) = Inr (Outcome WIN)"
  using utility_shape [of example_params example_state]
    utility_shape [of example_params example_lost]
  by (auto simp add: wf_params_def valid_state_def has_piece_def material_def example_params_def
        example_state_def example_lost_def BOARD_ROWS_def BOARD_COLS_def)

section \<open>The move limit\<close>

text \<open>
  Claim C4. Once the half-move counter has reached the move limit, \<^verbatim>\<open>is_done\<close> returns
  true and \<^verbatim>\<open>utility\<close> returns DRAW for either side, whatever the board array holds.
\<close>

theorem move_limit_is_draw:
  assumes "half_moves s \<ge> MOVE_LIMIT P"
  shows "fst (is_done P s) = Inr True
       \<and> fst (utility P WHITE s) = Inr (Outcome DRAW)
       \<and> fst (utility P BLACK s) = Inr (Outcome DRAW)"
  using assms by (simp add: is_done_def utility_def)

theorem move_limit_is_draw_witness:
  "half_moves example_drawn \<ge> MOVE_LIMIT example_params
   \<and> fst (is_done example_params example_drawn) = Inr True
   \<and> fst (utility example_params WHITE example_drawn) = Inr (Outcome DRAW)
   \<and> fst (utility example_params BLACK example_drawn) = Inr (Outcome DRAW)"
  using move_limit_is_draw [of example_params example_drawn]
  by (simp add: example_drawn_def example_params_def example_state_def)

section \<open>Queries do not change the state\<close>

lemma frame_bind:
  assumes "snd (m s) = s" and "\<And>x. snd (f x s) = s"
  shows "snd (case m s of (Inl e, s') \<Rightarrow> (Inl e, s') | (Inr x, s') \<Rightarrow> f x s') = s"
proof (cases "m s")
  case (Pair r s')
  then have "s' = s" using assms(1) by simp
  then show ?thesis using Pair assms(2) by (cases r) simp_all
qed

lemma get_piece_frame: "snd (get_piece P pos s) = s"
  by (simp add: get_piece_def split: sum.splits)

lemma count_loop_frame: "snd (count_loop P side ps acc s) = s"
proof (induction ps arbitrary: acc)
  case Nil
  show ?case by simp
next
  case (Cons pos ps)
  show ?case unfolding count_loop.simps
    by (rule frame_bind) (simp_all add: get_piece_frame Cons)
qed

lemma count_frame: "snd (count P side s) = s"
  unfolding count_def by (rule frame_bind) (simp_all add: count_loop_frame)

lemma piece_exists_loop_frame: "snd (piece_exists_loop P piece ps s) = s"
proof (induction ps)
  case Nil
  show ?case by simp
next
  case (Cons pos ps)
  show ?case unfolding piece_exists_loop.simps
    by (rule frame_bind) (simp_all add: get_piece_frame Cons)
qed

lemma piece_exists_frame: "snd (piece_exists P piece s) = s"
  by (simp add: piece_exists_def piece_exists_loop_frame)

lemma other_side_frame: "snd (other_side s) = s"
  by (simp add: other_side_def)

lemma is_done_frame: "snd (is_done P s) = s"
proof (cases "half_moves s \<ge> MOVE_LIMIT P")
  case True
  then show ?thesis by (simp add: is_done_def)
next
  case False
  have "snd (case piece_exists P (turn_to_play s) s of
           (Inl e, s1) \<Rightarrow> (Inl e, s1)
         | (Inr own_piece_exists, s1) \<Rightarrow>
             (case other_side s1 of
                (Inl e, s2) \<Rightarrow> (Inl e, s2)
              | (Inr other, s2) \<Rightarrow>
                  (case piece_exists P other s2 of
                     (Inl e, s3) \<Rightarrow> (Inl e, s3)
                   | (Inr other_piece_exists, s3) \<Rightarrow>
                       if own_piece_exists \<and> other_piece_exists
                       then (Inr False, s3)
                       else (Inr True, s3)))) = s"
    by (intro frame_bind piece_exists_frame other_side_frame) simp
  then show ?thesis using False by (simp add: is_done_def)
qed

lemma utility_frame: "snd (utility P side s) = s"
proof (cases "half_moves s \<ge> MOVE_LIMIT P")
  case True
  then show ?thesis by (simp add: utility_def)
next
  case False
  have win: "snd (case piece_exists P (turn_to_play s) s of
                (Inl e, s2) \<Rightarrow> (Inl e, s2)
              | (Inr ex, s2) \<Rightarrow>
                  (case (if ex then (Inr (turn_to_play s2), s2) else other_side s2) of
                     (Inl e, s3) \<Rightarrow> (Inl e, s3)
                   | (Inr winner, s3) \<Rightarrow>
                       if side = winner then (Inr (Outcome WIN), s3)
                       else (Inr (Outcome LOSS), s3))) = s"
    by (intro frame_bind piece_exists_frame) (simp_all add: other_side_def)
  have score: "snd (case count P side s of
                (Inl e, s2) \<Rightarrow> (Inl e, s2)
              | (Inr own, s2) \<Rightarrow>
                  (case Piece_other side of
                     Inl e \<Rightarrow> (Inl e, s2)
                   | Inr other \<Rightarrow>
                       (case count P other s2 of
                          (Inl e, s3) \<Rightarrow> (Inl e, s3)
                        | (Inr theirs, s3) \<Rightarrow> (Inr (Score (own - theirs)), s3)))) = s"
  proof (rule frame_bind[OF count_frame])
    fix own
    show "snd (case Piece_other side of
                     Inl e \<Rightarrow> (Inl e, s)
                   | Inr other \<Rightarrow>
                       (case count P other s of
                          (Inl e, s3) \<Rightarrow> (Inl e, s3)
                        | (Inr theirs, s3) \<Rightarrow> (Inr (Score (own - theirs)), s3))) = s"
    proof (cases "Piece_other side")
      case (Inl e)
      then show ?thesis by simp
    next
      case (Inr other)
      have "snd (case count P other s of
                          (Inl e, s3) \<Rightarrow> (Inl e, s3)
                        | (Inr theirs, s3) \<Rightarrow> (Inr (Score (own - theirs)), s3)) = s"
        by (rule frame_bind[OF count_frame]) simp
      then show ?thesis using Inr by simp
    qed
  qed
  obtain d where d: "is_done P s = (d, s)"
    using is_done_frame[of P s] by (cases "is_done P s") simp
  show ?thesis
  proof (cases d)
    case (Inl e)
    then show ?thesis using False d by (simp add: utility_def)
  next
    case (Inr b)
    then show ?thesis using False d win score by (cases b) (simp_all add: utility_def)
  qed
qed

lemma get_board_str_frame: "snd (get_board_str P s) = s"
  by (simp add: get_board_str_def Let_def split: sum.splits)

text \<open>
  Claim C10. Each query (\<^verbatim>\<open>get_piece\<close>, \<^verbatim>\<open>count\<close>, \<^verbatim>\<open>piece_exists\<close>, \<^verbatim>\<open>is_done\<close>,
  \<^verbatim>\<open>utility\<close> and the encoder \<^verbatim>\<open>get_board_str\<close>) leaves the object in the state in
  which it was called, whether it returns or raises.
\<close>

theorem queries_leave_state_unchanged:
  "snd (get_piece P pos s) = s \<and> snd (count P side s) = s \<and> snd (piece_exists P piece s) = s
   \<and> snd (is_done P s) = s \<and> snd (utility P side s) = s \<and> snd (get_board_str P s) = s"
  by (simp add: get_piece_frame count_frame piece_exists_frame is_done_frame utility_frame
        get_board_str_frame)

section \<open>Arrays of the size of the board\<close>

lemma np_set2_nat:
  "r < length g \<Longrightarrow> c < length (g ! r) \<Longrightarrow>
     np_set2 g (int r) (int c) v = Inr (g[r := (g ! r)[c := v]])"
  by (simp add: np_set2_def np_set_def np_index_def)

lemma grid_ok_nth: "grid_ok g \<Longrightarrow> r < BOARD_ROWS \<Longrightarrow> length (g ! r) = BOARD_COLS"
  by (simp add: grid_ok_def list_all_length)

lemma grid_ok_update:
  "grid_ok g \<Longrightarrow> r < BOARD_ROWS \<Longrightarrow> grid_ok (g[r := (g ! r)[c := v]])"
  by (auto simp: grid_ok_def list_all_length nth_list_update)

lemma grid_ok_put_all:
  "grid_ok g \<Longrightarrow> list_all (\<lambda>rc. fst rc < BOARD_ROWS) rcs \<Longrightarrow> grid_ok (put_all v rcs g)"
  by (induction rcs arbitrary: g) (simp_all add: grid_ok_update)

lemma put_all_cell:
  "grid_ok g \<Longrightarrow> list_all (\<lambda>rc. fst rc < BOARD_ROWS) rcs \<Longrightarrow> r < BOARD_ROWS \<Longrightarrow> c < BOARD_COLS \<Longrightarrow>
     put_all v rcs g ! r ! c = (if (r, c) \<in> set rcs then v else g ! r ! c)"
proof (induction rcs arbitrary: g)
  case Nil
  then show ?case by simp
next
  case (Cons rc rcs)
  let ?g = "g[fst rc := (g ! fst rc)[snd rc := v]]"
  have ok: "grid_ok ?g" using Cons.prems by (simp add: grid_ok_update)
  have len: "length g = BOARD_ROWS" using Cons.prems(1) by (simp add: grid_ok_def)
  have line: "length (g ! r) = BOARD_COLS" using Cons.prems by (simp add: grid_ok_nth)
  have cell: "?g ! r ! c = (if (r, c) = rc then v else g ! r ! c)"
  proof (cases "fst rc = r")
    case True
    then show ?thesis using len line Cons.prems(3,4) by (cases rc) (auto simp: nth_list_update)
  next
    case False
    then show ?thesis by (cases rc) auto
  qed
  have "put_all v (rc # rcs) g ! r ! c = (if (r, c) \<in> set rcs then v else ?g ! r ! c)"
    using Cons.IH[OF ok] Cons.prems by simp
  then show ?case using cell by auto
qed

lemma grid_eqI:
  assumes "grid_ok g" "grid_ok h"
    and "\<And>r c. r < BOARD_ROWS \<Longrightarrow> c < BOARD_COLS \<Longrightarrow> g ! r ! c = h ! r ! c"
  shows "g = h"
proof (rule nth_equalityI)
  show "length g = length h" using assms(1,2) by (simp add: grid_ok_def)
next
  fix r assume "r < length g"
  then have r: "r < BOARD_ROWS" using assms(1) by (simp add: grid_ok_def)
  show "g ! r = h ! r"
  proof (rule nth_equalityI)
    show "length (g ! r) = length (h ! r)" using assms(1,2) r by (simp add: grid_ok_nth)
  next
    fix c assume "c < length (g ! r)"
    then have "c < BOARD_COLS" using assms(1) r by (simp add: grid_ok_nth)
    then show "g ! r ! c = h ! r ! c" using r assms(3) by simp
  qed
qed

lemma grid_ok_replicate: "grid_ok (replicate BOARD_ROWS (replicate BOARD_COLS v))"
  by (simp add: grid_ok_def list_all_length)

section \<open>Clearing the visited array\<close>

lemma reset_loop_eq:
  "grid_ok (visited s) \<Longrightarrow> list_all in_grid ps \<Longrightarrow>
     reset_loop ps s = (Inr (), s\<lparr>visited := put_all False (map coords_of ps) (visited s)\<rparr>)"
proof (induction ps arbitrary: s)
  case Nil
  then show ?case by simp
next
  case (Cons pos ps)
  let ?r = "nat (row pos)" and ?c = "nat (col pos)"
  have g: "in_grid pos" using Cons.prems by simp
  then have r: "?r < BOARD_ROWS" and c: "?c < BOARD_COLS" by (auto simp: in_grid_def)
  have len: "?r < length (visited s)" using Cons.prems(1) r by (simp add: grid_ok_def)
  have line: "?c < length (visited s ! ?r)" using Cons.prems(1) r c by (simp add: grid_ok_nth)
  have eq: "int ?r = row pos" "int ?c = col pos" using g by (auto simp: in_grid_def)
  have set: "np_set2 (visited s) (row pos) (col pos) False
               = Inr ((visited s)[?r := (visited s ! ?r)[?c := False]])"
    using np_set2_nat[OF len line, of False] eq by simp
  have ok: "grid_ok (visited (s\<lparr>visited := (visited s)[?r := (visited s ! ?r)[?c := False]]\<rparr>))"
    using Cons.prems(1) r by (simp add: grid_ok_update)
  show ?case using Cons.IH[OF ok] Cons.prems(2) set
    by (simp add: to_coords_def coords_of_def)
qed

lemma coords_pos_range:
  "r < BOARD_ROWS \<Longrightarrow> c < BOARD_COLS \<Longrightarrow> (r, c) \<in> set (map coords_of pos_range)"
proof -
  assume "r < BOARD_ROWS" "c < BOARD_COLS"
  then have "\<lparr>row = int r, col = int c\<rparr> \<in> set pos_range"
    by (auto simp: pos_range_def intro!: bexI[of _ r] image_eqI[of _ _ c])
  then have "coords_of \<lparr>row = int r, col = int c\<rparr> \<in> set (map coords_of pos_range)"
    unfolding set_map by (rule imageI)
  then show ?thesis by (simp add: coords_of_def)
qed

lemma coords_pos_range_ok: "list_all (\<lambda>rc. fst rc < BOARD_ROWS) (map coords_of pos_range)"
  using pos_range_in_grid by (auto simp: list_all_iff coords_of_def in_grid_def)

text \<open>
  Claim C9. On a state whose visited array is 5 by 9, \<^verbatim>\<open>reset_visited_pos\<close> returns with
  every cell of the visited array false, whatever the array held, and with the board
  array, the side to move, the last direction and the half-move counter as they were.
\<close>

theorem reset_visited_pos_clears:
  assumes "length (visited s) = BOARD_ROWS"
    and "list_all (\<lambda>line. length line = BOARD_COLS) (visited s)"
  shows "reset_visited_pos s =
           (Inr (), s\<lparr>visited := replicate BOARD_ROWS (replicate BOARD_COLS False)\<rparr>)"
proof -
  have ok: "grid_ok (visited s)" using assms by (simp add: grid_ok_def)
  let ?v = "put_all False (map coords_of pos_range) (visited s)"
  have "?v = replicate BOARD_ROWS (replicate BOARD_COLS False)"
  proof (rule grid_eqI)
    show "grid_ok ?v" using ok coords_pos_range_ok by (rule grid_ok_put_all)
    show "grid_ok (replicate BOARD_ROWS (replicate BOARD_COLS False))" by (rule grid_ok_replicate)
    fix r c assume rc: "r < BOARD_ROWS" "c < BOARD_COLS"
    then show "?v ! r ! c = replicate BOARD_ROWS (replicate BOARD_COLS False) ! r ! c"
      using put_all_cell[OF ok coords_pos_range_ok rc, of False] coords_pos_range[OF rc] by simp
  qed
  then show ?thesis
    using reset_loop_eq[OF ok pos_range_in_grid] by (simp add: reset_visited_pos_def)
qed

theorem reset_visited_pos_clears_witness:
  "length (visited example_state) = BOARD_ROWS
   \<and> list_all (\<lambda>line. length line = BOARD_COLS) (visited example_state)
   \<and> fst (reset_visited_pos example_state) = Inr ()
   \<and> visited (snd (reset_visited_pos example_state)) =
        replicate BOARD_ROWS (replicate BOARD_COLS False)
   \<and> board_state (snd (reset_visited_pos example_state)) = board_state example_state
   \<and> turn_to_play (snd (reset_visited_pos example_state)) = WHITE
   \<and> last_dir (snd (reset_visited_pos example_state)) = Dir_S
   \<and> half_moves (snd (reset_visited_pos example_state)) = 3"
  using reset_visited_pos_clears [of example_state]
  by (simp add: example_state_def BOARD_ROWS_def BOARD_COLS_def)

section \<open>Reading a cell\<close>

text \<open>
  Claim C8, as the code has it. \<^verbatim>\<open>get_piece\<close> indexes the board array with the row and
  the column of the position and checks nothing itself. On a valid state it raises
  \<^verbatim>\<open>IndexError\<close> when the row is at least 5 or below -5, or the column is at least 9 or
  below -9; for a position inside the grid it returns the piece stored at that cell; a
  negative row from -5 to -1, or a negative column from -9 to -1, counts from the end of
  the array, and the call returns the piece stored there.
\<close>

theorem get_piece_indexing:
  assumes "wf_params P" "valid_state P s"
  shows "(row pos \<ge> int BOARD_ROWS \<or> row pos < - int BOARD_ROWS
          \<or> col pos \<ge> int BOARD_COLS \<or> col pos < - int BOARD_COLS
            \<longrightarrow> fst (get_piece P pos s) = Inl IndexError)
       \<and> (in_grid pos
            \<longrightarrow> (\<exists>p. fst (get_piece P pos s) = Inr p \<and> Piece_value P p = cell_at s pos))
       \<and> (- int BOARD_ROWS \<le> row pos \<and> row pos < int BOARD_ROWS
          \<and> - int BOARD_COLS \<le> col pos \<and> col pos < int BOARD_COLS
            \<longrightarrow> (\<exists>p. fst (get_piece P pos s) = Inr p \<and>
                   Piece_value P p = board_state s ! nat (row pos mod int BOARD_ROWS)
                                                  ! nat (col pos mod int BOARD_COLS)))"
proof (intro conjI impI)
  have len: "length (board_state s) = BOARD_ROWS" using assms(2) by (simp add: valid_state_def)
  have line: "\<And>r. r < BOARD_ROWS \<Longrightarrow> length (board_state s ! r) = BOARD_COLS"
    using assms(2) len by (auto simp: valid_state_def list_all_length)
  {
    assume out: "row pos \<ge> int BOARD_ROWS \<or> row pos < - int BOARD_ROWS
          \<or> col pos \<ge> int BOARD_COLS \<or> col pos < - int BOARD_COLS"
    show "fst (get_piece P pos s) = Inl IndexError"
    proof (cases "row pos \<ge> int BOARD_ROWS \<or> row pos < - int BOARD_ROWS")
      case True
      then show ?thesis using len by (auto simp: get_piece_def np_get_def np_index_def)
    next
      case False
      then obtain k where k: "np_index (board_state s) (row pos) = Inr k" "k < BOARD_ROWS"
        using len by (cases "0 \<le> row pos") (auto simp: np_index_def Let_def)
      have "col pos \<ge> int BOARD_COLS \<or> col pos < - int BOARD_COLS" using out False by auto
      then show ?thesis using k line[OF k(2)]
        by (auto simp: get_piece_def np_get_def np_index_def)
    qed
  }
  {
    assume "in_grid pos"
    from get_piece_in_grid[OF assms this]
    show "\<exists>p. fst (get_piece P pos s) = Inr p \<and> Piece_value P p = cell_at s pos" by auto
  }
  {
    assume inr: "- int BOARD_ROWS \<le> row pos \<and> row pos < int BOARD_ROWS
          \<and> - int BOARD_COLS \<le> col pos \<and> col pos < int BOARD_COLS"
    let ?kr = "nat (row pos mod int BOARD_ROWS)" and ?kc = "nat (col pos mod int BOARD_COLS)"
    have wrap: "x mod n = (if 0 \<le> x then x else x + n)" if "- n \<le> x" "x < n" for x n :: int
    proof (cases "0 \<le> x")
      case True
      then show ?thesis using that by (simp add: mod_pos_pos_trivial)
    next
      case False
      have "x mod n = (x + n) mod n" by simp
      also have "\<dots> = x + n" by (rule mod_pos_pos_trivial) (use that False in simp_all)
      finally show ?thesis using False by simp
    qed
    have kr: "?kr < BOARD_ROWS" and kc: "?kc < BOARD_COLS"
      by (simp_all add: BOARD_ROWS_def BOARD_COLS_def nat_less_iff)
    have ri: "np_index (board_state s) (row pos) = Inr ?kr"
      using inr len wrap[of "int BOARD_ROWS" "row pos"] by (simp add: np_index_def Let_def)
    have ci: "np_index (board_state s ! ?kr) (col pos) = Inr ?kc"
      using inr line[OF kr] wrap[of "int BOARD_COLS" "col pos"] by (simp add: np_index_def Let_def)
    from get_piece_in_range[OF assms kr kc]
    obtain p where p: "Piece_of P (board_state s ! ?kr ! ?kc) = Inr p" by blast
    have "get_piece P pos s = (Inr p, s)"
      using ri ci p by (simp add: get_piece_def np_get_def)
    then show "\<exists>p. fst (get_piece P pos s) = Inr p \<and>
                   Piece_value P p = board_state s ! ?kr ! ?kc"
      using Piece_of_Inr[OF p] by simp
  }
qed

theorem get_piece_indexing_witness:
  "wf_params example_params \<and> valid_state example_params example_state
   \<and> fst (get_piece example_params \<lparr>row = 5, col = 0\<rparr> example_state) = Inl IndexError
   \<and> fst (get_piece example_params \<lparr>row = 0, col = - 10\<rparr> example_state) = Inl IndexError
   \<and> in_grid \<lparr>row = 2, col = 3\<rparr>
   \<and> fst (get_piece example_params \<lparr>row = 2, col = 3\<rparr> example_state) = Inr EMPTY
   \<and> fst (get_piece example_params \<lparr>row = - 3, col = - 9\<rparr> example_state) = Inr BLACK"
proof -
  have wf: "wf_params example_params"
    by (simp add: wf_params_def example_params_def)
  have v: "valid_state example_params example_state"
    by (simp add: valid_state_def example_params_def example_state_def BOARD_ROWS_def
          BOARD_COLS_def)
  have inj: "\<And>p q. Piece_value example_params p = Piece_value example_params q \<Longrightarrow> p = q"
    by (simp add: example_params_def split: piece.splits)
  have g: "in_grid \<lparr>row = 2, col = 3\<rparr>"
    by (simp add: in_grid_def BOARD_ROWS_def BOARD_COLS_def)
  have a: "fst (get_piece example_params \<lparr>row = 5, col = 0\<rparr> example_state) = Inl IndexError"
    using get_piece_indexing [OF wf v, of "\<lparr>row = 5, col = 0\<rparr>"]
    by (simp add: BOARD_ROWS_def)
  have b: "fst (get_piece example_params \<lparr>row = 0, col = - 10\<rparr> example_state) = Inl IndexError"
    using get_piece_indexing [OF wf v, of "\<lparr>row = 0, col = - 10\<rparr>"]
    by (simp add: BOARD_COLS_def)
  have "Piece_value example_params EMPTY = cell_at example_state \<lparr>row = 2, col = 3\<rparr>"
    by (simp add: cell_at_def example_params_def example_state_def)
  then have c: "fst (get_piece example_params \<lparr>row = 2, col = 3\<rparr> example_state) = Inr EMPTY"
    using get_piece_indexing [OF wf v, of "\<lparr>row = 2, col = 3\<rparr>"] g inj by auto
  have "Piece_value example_params BLACK = board_state example_state ! 2 ! 0"
    by (simp add: example_params_def example_state_def)
  then have d: "fst (get_piece example_params \<lparr>row = - 3, col = - 9\<rparr> example_state) = Inr BLACK"
    using get_piece_indexing [OF wf v, of "\<lparr>row = - 3, col = - 9\<rparr>"] inj
    by (auto simp: BOARD_ROWS_def BOARD_COLS_def)
  show ?thesis using wf v a b g c d by simp
qed

text \<open>The position with row -1 lies outside the grid, and \<^verbatim>\<open>get_piece\<close> returns the
  piece of the last row for it.\<close>

theorem get_piece_negative_index:
  "\<not> in_grid \<lparr>row = - 1, col = 0\<rparr>
   \<and> fst (get_piece example_params \<lparr>row = - 1, col = 0\<rparr> example_state) = Inr BLACK"
  by (simp add: in_grid_def get_piece_def np_get_def np_index_def Piece_of_def
        example_params_def example_state_def)

section \<open>The encoder writes the run-length board string\<close>

lemma rle_row_run:
  assumes "qs = [] \<or> hd qs \<noteq> EMPTY"
  shows "spec_row_string P (replicate n EMPTY @ qs) = flush n @ spec_row_string P qs"
proof (cases n)
  case 0
  then show ?thesis by (simp add: flush_def)
next
  case (Suc m)
  have tw: "takeWhile (\<lambda>q. q = EMPTY) qs = []" and dw: "dropWhile (\<lambda>q. q = EMPTY) qs = qs"
    using assms by (cases qs; simp)+
  have t: "takeWhile (\<lambda>q. q = EMPTY) (replicate m EMPTY @ qs) = replicate m EMPTY"
    using tw by (induction m) simp_all
  have d: "dropWhile (\<lambda>q. q = EMPTY) (replicate m EMPTY @ qs) = qs"
    using dw by (induction m) simp_all
  show ?thesis using Suc t d by (simp add: flush_def)
qed

lemma Piece_value_inj:
  "wf_params P \<Longrightarrow> Piece_value P p = Piece_value P q \<longleftrightarrow> p = q"
  by (cases p; cases q) (auto simp: wf_params_def)

lemma encode_cols_rle:
  assumes "wf_params P"
  shows "\<exists>body n'. encode_cols P (map (Piece_value P) ps) (bs, int n) = Inr (bs @ body, int n')
           \<and> body @ flush n' = spec_row_string P (replicate n EMPTY @ ps)"
proof (induction ps arbitrary: bs n)
  case Nil
  have "spec_row_string P (replicate n EMPTY @ []) = flush n @ spec_row_string P []"
    by (rule rle_row_run) simp
  then show ?case by simp
next
  case (Cons p ps)
  show ?case
  proof (cases "p = EMPTY")
    case True
    from Cons[of bs "Suc n"] obtain body n' where
      b: "encode_cols P (map (Piece_value P) ps) (bs, int (Suc n)) = Inr (bs @ body, int n')"
        "body @ flush n' = spec_row_string P (replicate (Suc n) EMPTY @ ps)" by blast
    have "replicate (Suc n) EMPTY @ ps = replicate n EMPTY @ EMPTY # ps"
      by (simp add: replicate_append_same)
    then show ?thesis using b True assms
      by (auto simp: Piece_of_value add.commute simp del: replicate_Suc)
  next
    case False
    from Cons[of "bs @ flush n @ Piece_str P p" 0] obtain body n' where
      b: "encode_cols P (map (Piece_value P) ps) (bs @ flush n @ Piece_str P p, 0)
            = Inr ((bs @ flush n @ Piece_str P p) @ body, int n')"
        "body @ flush n' = spec_row_string P ps" by auto
    have r: "spec_row_string P (replicate n EMPTY @ p # ps) = flush n @ Piece_str P p @ spec_row_string P ps"
      using rle_row_run[of "p # ps" P n] False by simp
    have step: "encode_cols P (map (Piece_value P) (p # ps)) (bs, int n)
          = encode_cols P (map (Piece_value P) ps) (bs @ flush n @ Piece_str P p, 0)"
      using False assms by (simp add: Piece_of_value Piece_value_inj flush_def)
    show ?thesis
      using b r step by (intro exI[of _ "flush n @ Piece_str P p @ body"] exI[of _ n']) simp
  qed
qed

lemma encode_rows_rle:
  assumes "wf_params P"
  shows "encode_rows P (map (map (Piece_value P)) G) (bs, 0)
           = Inr (bs @ concat (map (\<lambda>line. spec_row_string P line @ ''/'') G), 0)"
proof (induction G arbitrary: bs)
  case Nil
  then show ?case by simp
next
  case (Cons line G)
  from encode_cols_rle[OF assms, of line bs 0] obtain body n' where
    b: "encode_cols P (map (Piece_value P) line) (bs, 0) = Inr (bs @ body, int n')"
      "body @ flush n' = spec_row_string P line" by auto
  have "encode_rows P (map (map (Piece_value P)) (line # G)) (bs, 0)
         = encode_rows P (map (map (Piece_value P)) G) ((bs @ body @ flush n') @ ''/'', 0)"
    using b(1) by (simp add: flush_def)
  then show ?case using Cons[of "(bs @ body @ flush n') @ ''/''"] b(2) by simp
qed


lemma tok_char_digit: "0 < k \<Longrightarrow> k < 10 \<Longrightarrow> tok_char (digit_char k)"
  using digit_char_props[of k] by (auto simp: tok_char_def digit_val_def)

lemma tok_char_props:
  "tok_char c \<Longrightarrow> \<not> is_space c \<and> c \<noteq> CHR ''/'' \<and> c \<noteq> CHR ''0'' \<and> c \<noteq> CHR '' ''"
  by (auto simp: tok_char_def is_space_def is_digit_def)

lemma run_length:
  "length (takeWhile (\<lambda>q. q = EMPTY) ps) + length (dropWhile (\<lambda>q. q = EMPTY) ps) = length ps"
  using takeWhile_dropWhile_id[of "\<lambda>q. q = EMPTY" ps] length_append
  by metis

lemma run_replicate:
  "takeWhile (\<lambda>q. q = EMPTY) ps = replicate (length (takeWhile (\<lambda>q. q = EMPTY) ps)) EMPTY"
  by (induction ps) simp_all

lemma rle_row_EMPTY:
  assumes "length (EMPTY # ps) \<le> 9"
  shows "spec_row_string P (EMPTY # ps) =
           digit_char (Suc (length (takeWhile (\<lambda>q. q = EMPTY) ps)))
             # spec_row_string P (dropWhile (\<lambda>q. q = EMPTY) ps)"
proof -
  let ?k = "length (takeWhile (\<lambda>q. q = EMPTY) ps)"
  have "?k \<le> length ps" using run_length[of ps] by simp
  then have "int (Suc ?k) < 10" using assms by simp
  then have "py_str (int (Suc ?k)) = [digit_char (nat (int (Suc ?k)))]"
    by (intro py_str_small) simp_all
  moreover have "nat (int (Suc ?k)) = Suc ?k" by (rule nat_int)
  ultimately have "py_str (int (Suc ?k)) = [digit_char (Suc ?k)]" by (simp only:)
  then show ?thesis by (simp del: of_nat_Suc)
qed

lemma rle_row_piece:
  "p \<noteq> EMPTY \<Longrightarrow> spec_row_string P (p # ps) = (if p = WHITE then CHR ''W'' else CHR ''B'') # spec_row_string P ps"
  by (cases p) simp_all

lemma rle_row_tok: "length ps \<le> 9 \<Longrightarrow> list_all tok_char (spec_row_string P ps)"
proof (induction P ps rule: spec_row_string.induct)
  case (1 P)
  then show ?case by simp
next
  case (2 P p ps)
  show ?case
  proof (cases "p = EMPTY")
    case True
    let ?k = "length (takeWhile (\<lambda>q. q = EMPTY) ps)"
    have k: "?k + length (dropWhile (\<lambda>q. q = EMPTY) ps) = length ps" by (rule run_length)
    then have "list_all tok_char (spec_row_string P (dropWhile (\<lambda>q. q = EMPTY) ps))"
      using 2 True by simp
    moreover have "tok_char (digit_char (Suc ?k))" using k 2(3) by (intro tok_char_digit) simp_all
    ultimately show ?thesis using rle_row_EMPTY[of ps P] 2(3) True by simp
  next
    case False
    then show ?thesis using 2 rle_row_piece[OF False, of P ps] by (simp add: tok_char_def)
  qed
qed

lemma rle_row_nonempty: "ps \<noteq> [] \<Longrightarrow> spec_row_string P ps \<noteq> []"
  by (cases ps; cases "hd ps") (simp_all add: py_str_nonempty)

lemma patch_Nil: "patch k [] line = line"
  by (simp add: patch_def)

lemma patch_single: "k < length line \<Longrightarrow> patch k [x] line = line[k := x]"
  by (simp add: patch_def upd_conv_take_nth_drop)

lemma patch_all: "length xs = length line \<Longrightarrow> patch 0 xs line = xs"
  by (simp add: patch_def)

lemma length_patch: "k + length xs \<le> length line \<Longrightarrow> length (patch k xs line) = length line"
  by (simp add: patch_def)

lemma patch_patch:
  "k + length xs + length ys \<le> length line \<Longrightarrow>
     patch (k + length xs) ys (patch k xs line) = patch k (xs @ ys) line"
  by (simp add: patch_def ac_simps)

lemma fill_empty_eq:
  assumes "r < length board"
  shows "k + n \<le> length (board ! r) \<Longrightarrow>
     fill_empty P (int r) [int k..int k + int n - 1] (board, cb) =
       Inr (board[r := patch k (replicate n (Piece_value P EMPTY)) (board ! r)],
            if n = 0 then cb else int k + int n - 1)"
  using assms
proof (induction n arbitrary: k board cb)
  case 0
  then show ?case by (simp add: patch_Nil)
next
  case (Suc n)
  let ?line = "board ! r" and ?e = "Piece_value P EMPTY"
  let ?board1 = "board[r := ?line[k := ?e]]"
  have k: "k < length ?line" using Suc.prems by simp
  have up: "[int k..int k + int (Suc n) - 1] = int k # [int (Suc k)..int (Suc k) + int n - 1]"
    by (simp add: upto_rec1 add.commute)
  have set: "np_set2 board (int r) (int k) ?e = Inr ?board1"
    using Suc.prems k by (simp add: np_set2_nat)
  have line1: "?board1 ! r = patch k [?e] ?line"
    using Suc.prems k by (simp add: patch_single)
  have "fill_empty P (int r) [int (Suc k)..int (Suc k) + int n - 1] (?board1, int k) =
          Inr (?board1[r := patch (Suc k) (replicate n ?e) (?board1 ! r)],
               if n = 0 then int k else int (Suc k) + int n - 1)"
    using Suc.prems by (intro Suc.IH) simp_all
  moreover have "patch (Suc k) (replicate n ?e) (?board1 ! r) = patch k (replicate (Suc n) ?e) ?line"
    using patch_patch[of k "[?e]" "replicate n ?e" ?line] Suc.prems line1 by simp
  ultimately show ?case using up set by simp
qed


lemma py_int_digit_char: "k < 10 \<Longrightarrow> py_int [digit_char k] = Inr (int k)"
  using py_int_digits[of "[digit_char k]"] digit_char_props[of k]
  by (simp add: digit_step_def)

lemma digit_char_not_letter: "k < 10 \<Longrightarrow> digit_char k \<noteq> CHR ''W'' \<and> digit_char k \<noteq> CHR ''B''"
  using digit_char_props[of k] by (auto simp: is_digit_def)

lemma decode_cells_rle:
  assumes "wf_params P" "r < length board"
  shows "length qs \<le> 9 \<Longrightarrow> k + length qs \<le> length (board ! r) \<Longrightarrow>
     decode_cells P (int r) (spec_row_string P qs) (board, int k) =
       Inr (board[r := patch k (map (Piece_value P) qs) (board ! r)], int (k + length qs))"
  using assms(2)
proof (induction P qs arbitrary: k board rule: spec_row_string.induct)
  case (1 P)
  then show ?case by (simp add: patch_Nil)
next
  case (2 P p ps)
  let ?line = "board ! r"
  show ?case
  proof (cases "p = EMPTY")
    case True
    let ?rest = "dropWhile (\<lambda>q. q = EMPTY) ps"
    let ?e = "Piece_value P EMPTY"
    define n where "n = Suc (length (takeWhile (\<lambda>q. q = EMPTY) ps))"
    let ?board1 = "board[r := patch k (replicate n ?e) ?line]"
    have len: "n + length ?rest = length (p # ps)"
      using run_length[of ps] by (simp add: n_def)
    have n10: "n < 10" and n0: "0 < n" using len "2.prems"(1) by (simp_all add: n_def)
    have ps: "p # ps = replicate n EMPTY @ ?rest"
      using takeWhile_dropWhile_id[of "\<lambda>q. q = EMPTY" ps] run_replicate[of ps] True
      by (simp add: n_def)
    have rle: "spec_row_string P (p # ps) = digit_char n # spec_row_string P ?rest"
      using True "2.prems"(1) rle_row_EMPTY[of ps P] by (simp add: n_def)
    have fill: "fill_empty P (int r) [int k..int k + int n - 1] (board, int k) =
                  Inr (?board1, int k + int n - 1)"
      using fill_empty_eq[OF "2.prems"(3), of k n P "int k"] "2.prems"(2) len n0 by simp
    have line1: "?board1 ! r = patch k (replicate n ?e) ?line"
      using "2.prems"(3) by simp
    have len1: "length (?board1 ! r) = length ?line"
      using line1 length_patch[of k "replicate n ?e" ?line] "2.prems"(2) len by simp
    have ih: "decode_cells P (int r) (spec_row_string P ?rest) (?board1, int (k + n)) =
                Inr (?board1[r := patch (k + n) (map (Piece_value P) ?rest) (?board1 ! r)],
                     int (k + n + length ?rest))"
      using True "2.prems" len len1 by (intro "2.IH"(1)) simp_all
    have "map (Piece_value P) (p # ps) = replicate n ?e @ map (Piece_value P) ?rest"
      unfolding ps by simp
    then have sp: "patch (k + n) (map (Piece_value P) ?rest) (?board1 ! r)
                = patch k (map (Piece_value P) (p # ps)) ?line"
      using patch_patch[of k "replicate n ?e" "map (Piece_value P) ?rest" ?line]
        line1 "2.prems"(2) len by simp
    have "int k + int n - 1 + 1 = int (k + n)" by simp
    then have step: "decode_cells P (int r) (digit_char n # spec_row_string P ?rest) (board, int k)
                 = decode_cells P (int r) (spec_row_string P ?rest) (?board1, int (k + n))"
      using fill py_int_digit_char[OF n10] digit_char_not_letter[OF n10] by simp
    have "k + n + length ?rest = k + length (p # ps)" using len by simp
    then show ?thesis using rle step ih sp by simp
  next
    case False
    let ?v = "Piece_value P p"
    let ?board1 = "board[r := ?line[k := ?v]]"
    have k: "k < length ?line" using "2.prems"(2) by simp
    have set: "np_set2 board (int r) (int k) ?v = Inr ?board1"
      using "2.prems"(3) k by (simp add: np_set2_nat)
    have line1: "?board1 ! r = patch k [?v] ?line"
      using "2.prems"(3) k by (simp add: patch_single)
    have ih: "decode_cells P (int r) (spec_row_string P ps) (?board1, int (Suc k)) =
                Inr (?board1[r := patch (Suc k) (map (Piece_value P) ps) (?board1 ! r)],
                     int (Suc k + length ps))"
      using False "2.prems" by (intro "2.IH"(2)) simp_all
    have sp: "patch (Suc k) (map (Piece_value P) ps) (?board1 ! r)
                = patch k (map (Piece_value P) (p # ps)) ?line"
      using patch_patch[of k "[?v]" "map (Piece_value P) ps" ?line] line1 "2.prems"(2) by simp
    have step: "decode_cells P (int r) (spec_row_string P (p # ps)) (board, int k)
                 = decode_cells P (int r) (spec_row_string P ps) (?board1, int (Suc k))"
      using set False rle_row_piece[OF False, of P ps] by (cases p) (simp_all add: algebra_simps)
    show ?thesis using step ih sp by simp
  qed
qed

lemma decode_rows_rle:
  assumes "wf_params P"
  shows "list_all (\<lambda>line. length line = 9) G \<Longrightarrow> list_all (\<lambda>line. length line = 9) board \<Longrightarrow>
     r + length G \<le> length board \<Longrightarrow>
     decode_rows P (int r) (map (spec_row_string P) G) board = Inr (patch r (map (map (Piece_value P)) G) board)"
proof (induction G arbitrary: r board)
  case Nil
  then show ?case by (simp add: patch_Nil)
next
  case (Cons line G)
  let ?x = "map (Piece_value P) line"
  let ?board1 = "board[r := ?x]"
  have r: "r < length board" using Cons.prems(3) by simp
  have l9: "length line = 9" using Cons.prems(1) by simp
  have b9: "length (board ! r) = 9" using Cons.prems(2) r by (simp add: list_all_length)
  have "decode_cells P (int r) (spec_row_string P line) (board, int 0) =
          Inr (board[r := patch 0 ?x (board ! r)], int (0 + length line))"
    using l9 b9 by (intro decode_cells_rle[OF assms r]) simp_all
  then have row: "decode_cells P (int r) (spec_row_string P line) (board, 0) = Inr (?board1, 9)"
    using l9 b9 by (simp add: patch_all)
  have ok1: "list_all (\<lambda>line. length line = 9) ?board1"
    using Cons.prems(2) l9 r by (auto simp: list_all_length nth_list_update)
  have ih: "decode_rows P (int (Suc r)) (map (spec_row_string P) G) ?board1
              = Inr (patch (Suc r) (map (map (Piece_value P)) G) ?board1)"
    using Cons.prems ok1 by (intro Cons.IH) simp_all
  have "?board1 = patch r [?x] board" using r by (simp add: patch_single)
  then have "patch (Suc r) (map (map (Piece_value P)) G) ?board1
               = patch r (map (map (Piece_value P)) (line # G)) board"
    using patch_patch[of r "[?x]" "map (map (Piece_value P)) G" board] Cons.prems(3) by simp
  then show ?case using row ih by (simp add: algebra_simps)
qed

lemma concat_sep: "fs \<noteq> [] \<Longrightarrow> concat (map (\<lambda>f. f @ [c]) fs) = py_join [c] fs @ [c]"
proof (induction fs)
  case Nil
  then show ?case by simp
next
  case (Cons f fs)
  then show ?case by (cases fs) simp_all
qed

lemma last_py_join:
  "fs \<noteq> [] \<Longrightarrow> last fs \<noteq> [] \<Longrightarrow> py_join sep fs \<noteq> [] \<and> last (py_join sep fs) = last (last fs)"
proof (induction fs)
  case Nil
  then show ?case by simp
next
  case (Cons f fs)
  then show ?case by (cases fs) auto
qed

lemma py_rstrip_keep: "xs \<noteq> [] \<Longrightarrow> last xs \<noteq> c \<Longrightarrow> py_rstrip c (xs @ [c]) = xs"
proof -
  assume "xs \<noteq> []" "last xs \<noteq> c"
  then have "dropWhile (\<lambda>x. x = c) (rev xs) = rev xs"
    by (cases "rev xs") (simp_all add: last_rev[symmetric] hd_rev)
  then show ?thesis by (simp add: py_rstrip_def)
qed

section \<open>Decoding what the encoder wrote\<close>

lemma encode_board_rle:
  assumes "wf_params P" "grid_ok G"
  shows "encode_board P (map (map (Piece_value P)) G) = Inr (spec_board_string P G)"
proof -
  have ne: "G \<noteq> []" using assms(2) by (auto simp: grid_ok_def BOARD_ROWS_def)
  then have "last G \<in> set G" by simp
  then have "length (last G) = 9"
    using assms(2) by (simp add: grid_ok_def BOARD_COLS_def list_all_iff)
  then have lst: "last G \<noteq> []" and l9: "length (last G) \<le> 9" by auto
  let ?fs = "map (spec_row_string P) G"
  have fs: "?fs \<noteq> []" "last ?fs \<noteq> []"
    using ne lst by (simp_all add: last_map rle_row_nonempty)
  have "tok_char (last (last ?fs))"
    using rle_row_tok[OF l9, of P] fs ne by (simp add: last_map list_all_iff)
  then have "last (py_join ''/'' ?fs) \<noteq> CHR ''/''" and j: "py_join ''/'' ?fs \<noteq> []"
    using last_py_join[OF fs, of "''/''"] tok_char_props by auto
  then have "py_rstrip (CHR ''/'') (py_join ''/'' ?fs @ ''/'') = py_join ''/'' ?fs"
    by (intro py_rstrip_keep)
  moreover have "concat (map (\<lambda>line. spec_row_string P line @ ''/'') G) = py_join ''/'' ?fs @ ''/''"
    using concat_sep[OF fs(1), of "CHR ''/''"] by (simp add: comp_def)
  ultimately show ?thesis
    using encode_rows_rle[OF assms(1), of G "[]"] by (simp add: encode_board_def spec_board_string_def)
qed

lemma rle_board_split:
  assumes "grid_ok G"
  shows "py_split_on (CHR ''/'') (spec_board_string P G) = map (spec_row_string P) G"
proof -
  have ne: "G \<noteq> []" and l9: "list_all (\<lambda>line. length line = 9) G"
    using assms by (auto simp: grid_ok_def BOARD_ROWS_def BOARD_COLS_def)
  have "CHR ''/'' \<notin> set (spec_row_string P line)" if "line \<in> set G" for line
  proof -
    have "length line \<le> 9" using that l9 by (simp add: list_all_iff)
    then have "\<forall>c \<in> set (spec_row_string P line). tok_char c"
      using rle_row_tok[of line P] by (simp add: list_all_iff)
    then show ?thesis using tok_char_props by blast
  qed
  then have "list_all (\<lambda>f. CHR ''/'' \<notin> set f) (map (spec_row_string P) G)"
    by (simp add: list_all_iff)
  then show ?thesis using ne by (simp add: spec_board_string_def py_split_on_join)
qed

lemma process_board_rle:
  assumes "wf_params P" "grid_ok G"
  shows "process_board_state_str P (spec_board_string P G) = Inr (map (map (Piece_value P)) G)"
proof -
  have l9: "list_all (\<lambda>line. length line = 9) G" and l5: "length G = 5"
    using assms(2) by (auto simp: grid_ok_def BOARD_ROWS_def BOARD_COLS_def)
  let ?z = "replicate BOARD_ROWS (replicate BOARD_COLS (0::int))"
  have "decode_rows P (int 0) (map (spec_row_string P) G) ?z
          = Inr (patch 0 (map (map (Piece_value P)) G) ?z)"
    using l9 l5 by (intro decode_rows_rle[OF assms(1)])
      (simp_all add: BOARD_ROWS_def BOARD_COLS_def list_all_length)
  then show ?thesis using rle_board_split[OF assms(2), of P] l5
    by (simp add: process_board_state_str_def patch_all BOARD_ROWS_def)
qed

lemma Direction_roundtrip:
  "(if Direction_str d \<noteq> ''-'' then Direction_of_name (Direction_str d) else Inr Dir_X) = Inr d"
  by (cases d) (simp_all add: Direction_str_def Direction_of_name_def Direction_members_def)

lemma Direction_str_field:
  "Direction_str d \<noteq> [] \<and> list_all (\<lambda>c. \<not> is_space c) (Direction_str d)"
  by (cases d) (simp_all add: Direction_str_def is_space_def)

lemma to_human_roundtrip:
  assumes "in_grid pos"
  shows "Position_of_human (to_human pos) = Inr pos"
proof -
  have "(65 + col pos) mod 256 = 65 + col pos" "(49 + row pos) mod 256 = 49 + row pos"
    using assms by (simp_all add: in_grid_def BOARD_ROWS_def BOARD_COLS_def)
  then show ?thesis using assms
    by (simp add: Position_of_human_def to_human_def Position_of_coords_def in_grid_def)
qed

lemma to_human_chars:
  assumes "in_grid pos"
  shows "list_all (\<lambda>c. \<not> is_space c \<and> c \<noteq> CHR '','') (to_human pos) \<and> length (to_human pos) = 2"
proof -
  have c: "(65 + col pos) mod 256 = 65 + col pos" and r: "(49 + row pos) mod 256 = 49 + row pos"
    using assms by (simp_all add: in_grid_def BOARD_ROWS_def BOARD_COLS_def)
  have "of_char (char_of (65 + col pos)) = 65 + col pos" "of_char (char_of (49 + row pos)) = 49 + row pos"
    using c r by simp_all
  then have "(of_char (char_of (65 + col pos)) :: nat) = nat (65 + col pos)"
    "(of_char (char_of (49 + row pos)) :: nat) = nat (49 + row pos)"
    by (metis nat_of_char)+
  moreover have "char_of (65 + col pos) \<noteq> CHR '',''" "char_of (49 + row pos) \<noteq> CHR '',''"
    using calculation assms by (auto simp: in_grid_def)
  ultimately show ?thesis using assms
    by (auto simp: to_human_def is_space_def in_grid_def BOARD_ROWS_def BOARD_COLS_def)
qed

lemma visited_cols_eq:
  "r < BOARD_ROWS \<Longrightarrow> c + length bs \<le> BOARD_COLS \<Longrightarrow>
     visited_cols (int r) (int c) bs acc = Inr (acc @ map to_human (row_positions r c bs))"
proof (induction bs arbitrary: c acc)
  case Nil
  then show ?case by simp
next
  case (Cons b bs)
  have "visited_cols (int r) (int (Suc c)) bs acc' = Inr (acc' @ map to_human (row_positions r (Suc c) bs))"
    for acc' using Cons.prems by (intro Cons.IH) simp_all
  then show ?case using Cons.prems
    by (simp add: Position_of_coords_def add.commute)
qed

lemma visited_rows_eq:
  "r + length v \<le> BOARD_ROWS \<Longrightarrow> list_all (\<lambda>line. length line = BOARD_COLS) v \<Longrightarrow>
     visited_rows (int r) v acc = Inr (acc @ map to_human (grid_positions r v))"
proof (induction v arbitrary: r acc)
  case Nil
  then show ?case by simp
next
  case (Cons line v)
  have "visited_cols (int r) (int 0) line acc = Inr (acc @ map to_human (row_positions r 0 line))"
    using Cons.prems by (intro visited_cols_eq) simp_all
  moreover have "visited_rows (int (Suc r)) v acc' = Inr (acc' @ map to_human (grid_positions (Suc r) v))"
    for acc' using Cons.prems by (intro Cons.IH) simp_all
  ultimately show ?case by (simp add: add.commute)
qed

lemma row_positions_mem:
  "(i, j) \<in> set (map coords_of (row_positions r c bs)) \<longleftrightarrow>
     i = r \<and> c \<le> j \<and> j < c + length bs \<and> bs ! (j - c)"
proof (induction bs arbitrary: c)
  case Nil
  then show ?case by simp
next
  case (Cons b bs)
  show ?case
  proof (cases "j = c")
    case True
    then show ?thesis using Cons[of "Suc c"] by (auto simp: coords_of_def)
  next
    case False
    then have "(b # bs) ! (j - c) = bs ! (j - Suc c)" if "c \<le> j"
      using that by (simp add: nth_Cons')
    then show ?thesis using False Cons[of "Suc c"] by (auto simp: coords_of_def)
  qed
qed

lemma grid_positions_mem:
  "(i, j) \<in> set (map coords_of (grid_positions r v)) \<longleftrightarrow>
     r \<le> i \<and> i < r + length v \<and> j < length (v ! (i - r)) \<and> v ! (i - r) ! j"
proof (induction v arbitrary: r)
  case Nil
  then show ?case by simp
next
  case (Cons line v)
  have split: "(i, j) \<in> set (map coords_of (grid_positions r (line # v))) \<longleftrightarrow>
          (i, j) \<in> set (map coords_of (row_positions r 0 line))
          \<or> (i, j) \<in> set (map coords_of (grid_positions (Suc r) v))"
    by auto
  show ?case
  proof (cases "i = r")
    case True
    then show ?thesis unfolding split row_positions_mem Cons[of "Suc r"] by auto
  next
    case False
    then have "(line # v) ! (i - r) = v ! (i - Suc r)" if "r \<le> i"
      using that by (simp add: nth_Cons')
    then show ?thesis using False unfolding split row_positions_mem Cons[of "Suc r"] by auto
  qed
qed

lemma row_positions_in_grid:
  "r < BOARD_ROWS \<Longrightarrow> c + length bs \<le> BOARD_COLS \<Longrightarrow> list_all in_grid (row_positions r c bs)"
  by (induction bs arbitrary: c) (simp_all add: in_grid_def)

lemma grid_positions_in_grid:
  "r + length v \<le> BOARD_ROWS \<Longrightarrow> list_all (\<lambda>line. length line = BOARD_COLS) v \<Longrightarrow>
     list_all in_grid (grid_positions r v)"
proof (induction v arbitrary: r)
  case Nil
  then show ?case by simp
next
  case (Cons line v)
  have "list_all in_grid (row_positions r 0 line)"
    using Cons.prems by (intro row_positions_in_grid) simp_all
  moreover have "list_all in_grid (grid_positions (Suc r) v)"
    using Cons.prems by (intro Cons.IH) simp_all
  ultimately show ?case by simp
qed

lemma mark_visited_eq:
  "grid_ok g \<Longrightarrow> list_all in_grid ps \<Longrightarrow>
     mark_visited (map to_human ps) g = Inr (put_all True (map coords_of ps) g)"
proof (induction ps arbitrary: g)
  case Nil
  then show ?case by simp
next
  case (Cons pos ps)
  let ?r = "nat (row pos)" and ?c = "nat (col pos)"
  let ?g = "g[?r := (g ! ?r)[?c := True]]"
  have g: "in_grid pos" using Cons.prems by simp
  then have r: "?r < BOARD_ROWS" and c: "?c < BOARD_COLS" by (auto simp: in_grid_def)
  have len: "?r < length g" using Cons.prems(1) r by (simp add: grid_ok_def)
  have line: "?c < length (g ! ?r)" using Cons.prems(1) r c by (simp add: grid_ok_nth)
  have eq: "int ?r = row pos" "int ?c = col pos" using g by (auto simp: in_grid_def)
  have set: "np_set2 g (row pos) (col pos) True = Inr ?g"
    using np_set2_nat[OF len line, of True] eq by simp
  have "mark_visited (map to_human ps) ?g = Inr (put_all True (map coords_of ps) ?g)"
    using Cons.prems r by (intro Cons.IH) (simp_all add: grid_ok_update)
  moreover have "coords_of pos = (?r, ?c)" by (simp add: coords_of_def)
  ultimately show ?case using set to_human_roundtrip[OF g]
    by (simp add: to_coords_def)
qed

lemma visited_rebuilt:
  assumes "grid_ok v"
  shows "put_all True (map coords_of (grid_positions 0 v))
           (replicate BOARD_ROWS (replicate BOARD_COLS False)) = v"
proof (rule grid_eqI)
  let ?z = "replicate BOARD_ROWS (replicate BOARD_COLS False)"
  let ?rcs = "map coords_of (grid_positions 0 v)"
  have len: "length v = BOARD_ROWS" and lines: "list_all (\<lambda>line. length line = BOARD_COLS) v"
    using assms by (simp_all add: grid_ok_def)
  have "list_all in_grid (grid_positions 0 v)"
    using len lines by (intro grid_positions_in_grid) simp_all
  then have ok: "list_all (\<lambda>rc. fst rc < BOARD_ROWS) ?rcs"
    by (auto simp: list_all_iff coords_of_def in_grid_def)
  show "grid_ok (put_all True ?rcs ?z)"
    using grid_ok_replicate ok by (rule grid_ok_put_all)
  show "grid_ok v" by (rule assms)
  fix r c assume rc: "r < BOARD_ROWS" "c < BOARD_COLS"
  have "put_all True ?rcs ?z ! r ! c = (if (r, c) \<in> set ?rcs then True else ?z ! r ! c)"
    using grid_ok_replicate ok rc by (rule put_all_cell)
  moreover have "(r, c) \<in> set ?rcs \<longleftrightarrow> v ! r ! c"
    using grid_positions_mem[of r c 0 v] rc len grid_ok_nth[OF assms rc(1)] by simp
  ultimately show "put_all True ?rcs ?z ! r ! c = v ! r ! c" using rc by simp
qed

lemma py_join_chars:
  "list_all (\<lambda>f. list_all Q f) fs \<Longrightarrow> list_all Q sep \<Longrightarrow> list_all Q (py_join sep fs)"
  by (induction sep fs rule: py_join.induct) simp_all

lemma py_join_length:
  "fs \<noteq> [] \<Longrightarrow> length (hd fs) \<le> length (py_join sep fs)"
  by (induction sep fs rule: py_join.induct) simp_all

lemma visited_roundtrip:
  assumes "grid_ok v"
  shows "\<exists>str. (case visited_rows 0 v [] of
                  Inl e \<Rightarrow> Inl e
                | Inr l \<Rightarrow> Inr (if l = [] then ''-'' else py_join '','' l)) = Inr str
          \<and> str \<noteq> [] \<and> list_all (\<lambda>c. \<not> is_space c) str
          \<and> process_visited_pos_str str = Inr v"
proof -
  let ?ps = "grid_positions 0 v"
  let ?l = "map to_human ?ps"
  let ?z = "replicate BOARD_ROWS (replicate BOARD_COLS False)"
  have len: "length v = BOARD_ROWS" and lines: "list_all (\<lambda>line. length line = BOARD_COLS) v"
    using assms by (simp_all add: grid_ok_def)
  have enc: "visited_rows 0 v [] = Inr ?l"
    using visited_rows_eq[of 0 v "[]"] len lines by simp
  have ing: "list_all in_grid ?ps"
    using len lines by (intro grid_positions_in_grid) simp_all
  have chars: "list_all (\<lambda>f. list_all (\<lambda>c. \<not> is_space c) f) ?l"
    and nocomma: "list_all (\<lambda>f. CHR '','' \<notin> set f) ?l"
    and len2: "list_all (\<lambda>f. length f = 2) ?l"
    using ing to_human_chars by (auto simp: list_all_iff)
  have dec: "mark_visited ?l ?z = Inr v"
    using mark_visited_eq[OF grid_ok_replicate ing] visited_rebuilt[OF assms] by simp
  show ?thesis
  proof (cases "?l = []")
    case True
    then have "v = ?z" using visited_rebuilt[OF assms] by simp
    then show ?thesis using True enc
      by (simp add: process_visited_pos_str_def is_space_def)
  next
    case False
    let ?str = "py_join '','' ?l"
    have "length (hd ?l) = 2" using False len2 by (cases ?l) simp_all
    then have l2: "2 \<le> length ?str" using py_join_length[OF False, of "'',''"] by simp
    then have ne: "?str \<noteq> ''-''" "?str \<noteq> []" by auto
    have sp: "list_all (\<lambda>c. \<not> is_space c) ?str"
      using chars by (intro py_join_chars) (simp_all add: is_space_def)
    have "py_split_on (CHR '','') ?str = ?l"
      using False nocomma by (rule py_split_on_join)
    then have "process_visited_pos_str ?str = Inr v"
      using ne dec by (simp add: process_visited_pos_str_def)
    then show ?thesis using False enc ne sp by simp
  qed
qed

lemma cell_piece_value:
  "wf_params P \<Longrightarrow> v \<in> set (map (Piece_value P) [WHITE, BLACK, EMPTY]) \<Longrightarrow>
     Piece_value P (cell_piece P v) = v"
  by (auto simp: cell_piece_def Piece_of_value)

lemma grid_pieces_values:
  assumes "wf_params P" "valid_state P s"
  shows "map (map (Piece_value P)) (grid_pieces P s) = board_state s"
    and "grid_ok (grid_pieces P s)"
proof -
  have "map (Piece_value P) (map (cell_piece P) line) = line" if "line \<in> set (board_state s)" for line
  proof -
    have "\<forall>v \<in> set line. v \<in> set (map (Piece_value P) [WHITE, BLACK, EMPTY])"
      using assms(2) that by (simp add: valid_state_def list_all_iff)
    then have "\<forall>v \<in> set line. Piece_value P (cell_piece P v) = v"
      using cell_piece_value[OF assms(1)] by blast
    then show ?thesis by (simp add: map_idI)
  qed
  then show "map (map (Piece_value P)) (grid_pieces P s) = board_state s"
    by (simp add: grid_pieces_def map_idI)
  show "grid_ok (grid_pieces P s)"
    using assms(2) by (simp add: grid_ok_def grid_pieces_def valid_state_def list_all_iff)
qed

lemma rle_board_field:
  assumes "grid_ok G"
  shows "spec_board_string P G \<noteq> [] \<and> list_all tok_char (filter (\<lambda>c. c \<noteq> CHR ''/'') (spec_board_string P G))"
proof -
  have ne: "G \<noteq> []" using assms by (auto simp: grid_ok_def BOARD_ROWS_def)
  then have "last G \<in> set G" by simp
  then have "length (last G) = 9"
    using assms by (simp add: grid_ok_def BOARD_COLS_def list_all_iff)
  then have "last G \<noteq> []" by auto
  then have "py_join ''/'' (map (spec_row_string P) G) \<noteq> []"
    using last_py_join[of "map (spec_row_string P) G" "''/''"] ne by (simp add: last_map rle_row_nonempty)
  moreover have "list_all (\<lambda>f. list_all (\<lambda>c. c \<noteq> CHR ''/'' \<longrightarrow> tok_char c) f) (map (spec_row_string P) G)"
  proof -
    have "list_all (\<lambda>c. c \<noteq> CHR ''/'' \<longrightarrow> tok_char c) (spec_row_string P line)" if "line \<in> set G" for line
    proof -
      have "length line \<le> 9" using that assms by (simp add: grid_ok_def BOARD_COLS_def list_all_iff)
      then show ?thesis using rle_row_tok[of line P] by (simp add: list_all_iff)
    qed
    then show ?thesis by (simp add: list_all_iff)
  qed
  then have "list_all (\<lambda>c. c \<noteq> CHR ''/'' \<longrightarrow> tok_char c) (py_join ''/'' (map (spec_row_string P) G))"
    by (intro py_join_chars) simp_all
  ultimately show ?thesis by (simp add: spec_board_string_def list_all_iff)
qed

lemma get_board_str_eq:
  assumes "wf_params P" "valid_state P s"
  shows "\<exists>vstr. get_board_str P s =
           (Inr (py_join '' '' [spec_board_string P (grid_pieces P s), Piece_str P (turn_to_play s),
                               Direction_str (last_dir s), vstr, py_str (half_moves s)]), s)
         \<and> vstr \<noteq> [] \<and> list_all (\<lambda>c. \<not> is_space c) vstr
         \<and> process_visited_pos_str vstr = Inr (visited s)"
proof -
  have v: "grid_ok (visited s)" using assms(2) by (simp add: grid_ok_def valid_state_def)
  from visited_roundtrip[OF v] obtain vstr where
    vs: "(case visited_rows 0 (visited s) [] of
                  Inl e \<Rightarrow> Inl e
                | Inr l \<Rightarrow> Inr (if l = [] then ''-'' else py_join '','' l)) = Inr vstr"
      "vstr \<noteq> []" "list_all (\<lambda>c. \<not> is_space c) vstr"
      "process_visited_pos_str vstr = Inr (visited s)" by blast
  have enc: "encode_board P (board_state s) = Inr (spec_board_string P (grid_pieces P s))"
    using encode_board_rle[OF assms(1) grid_pieces_values(2)[OF assms]]
      grid_pieces_values(1)[OF assms] by simp
  have "get_board_str P s =
           (Inr (py_join '' '' [spec_board_string P (grid_pieces P s), Piece_str P (turn_to_play s),
                               Direction_str (last_dir s), vstr, py_str (half_moves s)]), s)"
    using enc vs(1) by (auto simp: get_board_str_def Let_def split: sum.splits)
  then show ?thesis using vs by blast
qed

lemma get_board_str_fields:
  assumes "wf_params P" "valid_state P s"
  shows "\<exists>vstr. get_board_str P s =
           (Inr (py_join '' '' [spec_board_string P (grid_pieces P s), Piece_str P (turn_to_play s),
                               Direction_str (last_dir s), vstr, py_str (half_moves s)]), s)
         \<and> py_split (py_join '' '' [spec_board_string P (grid_pieces P s), Piece_str P (turn_to_play s),
                               Direction_str (last_dir s), vstr, py_str (half_moves s)])
             = [spec_board_string P (grid_pieces P s), Piece_str P (turn_to_play s),
                               Direction_str (last_dir s), vstr, py_str (half_moves s)]
         \<and> process_visited_pos_str vstr = Inr (visited s)"
proof -
  let ?B = "spec_board_string P (grid_pieces P s)"
  let ?T = "Piece_str P (turn_to_play s)"
  let ?D = "Direction_str (last_dir s)"
  let ?H = "py_str (half_moves s)"
  from get_board_str_eq[OF assms] obtain vstr where
    enc: "get_board_str P s = (Inr (py_join '' '' [?B, ?T, ?D, vstr, ?H]), s)"
    and vs: "vstr \<noteq> []" "list_all (\<lambda>c. \<not> is_space c) vstr"
      "process_visited_pos_str vstr = Inr (visited s)" by blast
  have g: "grid_ok (grid_pieces P s)" by (rule grid_pieces_values(2)[OF assms])
  have hm: "0 \<le> half_moves s" and turn: "turn_to_play s \<noteq> EMPTY"
    using assms(2) by (simp_all add: valid_state_def)
  have B: "?B \<noteq> []" "list_all (\<lambda>c. \<not> is_space c) ?B"
    using rle_board_field[OF g, of P] tok_char_props by (auto simp: list_all_iff is_space_def)
  have T: "?T \<noteq> []" "list_all (\<lambda>c. \<not> is_space c) ?T"
    using turn by (cases "turn_to_play s"; simp add: is_space_def)+
  have "py_split (py_join '' '' [?B, ?T, ?D, vstr, ?H]) = [?B, ?T, ?D, vstr, ?H]"
    using B T vs(1,2) Direction_str_field[of "last_dir s"] py_str_nonempty[of "half_moves s"]
      py_str_no_space[OF hm]
    by (intro py_split_join5) simp
  then show ?thesis using enc vs(3) by blast
qed

text \<open>
  Claim C1. For every valid state the encoder returns a string, and decoding that string
  returns a state equal to the encoded one in all five fields.
\<close>

theorem encode_decode_roundtrip:
  assumes "wf_params P" "valid_state P s"
  shows "\<exists>str. get_board_str P s = (Inr str, s) \<and> set_from_board_str P str = Inr s"
proof -
  let ?B = "spec_board_string P (grid_pieces P s)"
  let ?T = "Piece_str P (turn_to_play s)"
  let ?D = "Direction_str (last_dir s)"
  let ?H = "py_str (half_moves s)"
  from get_board_str_fields[OF assms] obtain vstr where
    enc: "get_board_str P s = (Inr (py_join '' '' [?B, ?T, ?D, vstr, ?H]), s)"
    and fields: "py_split (py_join '' '' [?B, ?T, ?D, vstr, ?H]) = [?B, ?T, ?D, vstr, ?H]"
    and vis: "process_visited_pos_str vstr = Inr (visited s)" by blast
  have g: "grid_ok (grid_pieces P s)" by (rule grid_pieces_values(2)[OF assms])
  have hm: "0 \<le> half_moves s" and turn: "turn_to_play s \<noteq> EMPTY"
    using assms(2) by (simp_all add: valid_state_def)
  have T: "(if ?T = ''W'' then WHITE else BLACK) = turn_to_play s"
    using turn by (cases "turn_to_play s") simp_all
  have board: "process_board_state_str P ?B = Inr (board_state s)"
    using process_board_rle[OF assms(1) g] grid_pieces_values(1)[OF assms] by simp
  have "set_from_board_str P (py_join '' '' [?B, ?T, ?D, vstr, ?H]) = Inr s"
    unfolding set_from_board_str_def fields
    using board T Direction_roundtrip[of "last_dir s"] vis py_int_py_str[OF hm]
    by simp
  then show ?thesis using enc by blast
qed

theorem encode_decode_roundtrip_witness:
  "wf_params example_params \<and> valid_state example_params example_state
   \<and> get_board_str example_params example_state =
        (Inr ''WWWWWWWWW/WWW1WWWWW/BWB1W1WBW/BBB2BBBB/BBBBBBBBB W S D2,E3 3'', example_state)
   \<and> set_from_board_str example_params
        ''WWWWWWWWW/WWW1WWWWW/BWB1W1WBW/BBB2BBBB/BBBBBBBBB W S D2,E3 3'' = Inr example_state"
proof -
  have wf: "wf_params example_params"
    by (simp add: wf_params_def example_params_def)
  have v: "valid_state example_params example_state"
    by (simp add: valid_state_def example_params_def example_state_def BOARD_ROWS_def
          BOARD_COLS_def)
  have enc: "get_board_str example_params example_state =
        (Inr ''WWWWWWWWW/WWW1WWWWW/BWB1W1WBW/BBB2BBBB/BBBBBBBBB W S D2,E3 3'', example_state)"
    by code_simp
  show ?thesis using encode_decode_roundtrip [OF wf v] wf v enc by simp
qed


section \<open>Run lengths in the board string\<close>

lemma py_str_9: "py_str 9 = ''9''"
  by code_simp

lemma rle_row_all_empty: "spec_row_string P (replicate BOARD_COLS EMPTY) = ''9''"
  using rle_row_run[of "[]" P 9] by (simp add: BOARD_COLS_def flush_def py_str_9)

text \<open>
  Claim C7. For a valid state the board string, the first field of the encoding, is the
  run-length string of the specification: every maximal run of EMPTY cells of a row is
  written as one decimal count in front of the piece letter, the row separator or the
  end of the string that follows it. It contains no \<^verbatim>\<open>0\<close>, and a row of nine EMPTY cells
  is the single token \<^verbatim>\<open>9\<close>.
\<close>

theorem board_string_run_lengths:
  assumes "wf_params P" "valid_state P s"
  shows "\<exists>str. fst (get_board_str P s) = Inr str
           \<and> hd (py_split str) = spec_board_string P (grid_pieces P s)
           \<and> CHR ''0'' \<notin> set (hd (py_split str))
           \<and> (\<forall>r < BOARD_ROWS. grid_pieces P s ! r = replicate BOARD_COLS EMPTY
                 \<longrightarrow> py_split_on (CHR ''/'') (hd (py_split str)) ! r = ''9'')"
proof -
  let ?B = "spec_board_string P (grid_pieces P s)"
  from get_board_str_fields[OF assms] obtain str rest where
    enc: "get_board_str P s = (Inr str, s)" and fields: "py_split str = ?B # rest"
    by blast
  have g: "grid_ok (grid_pieces P s)" by (rule grid_pieces_values(2)[OF assms])
  have "\<forall>c \<in> set ?B. c \<noteq> CHR ''/'' \<longrightarrow> tok_char c"
    using rle_board_field[OF g, of P] by (simp add: list_all_iff)
  then have zero: "CHR ''0'' \<notin> set ?B" using tok_char_props by fastforce
  have nine: "py_split_on (CHR ''/'') ?B ! r = ''9''"
    if "r < BOARD_ROWS" "grid_pieces P s ! r = replicate BOARD_COLS EMPTY" for r
  proof -
    have "r < length (grid_pieces P s)" using g that(1) by (simp add: grid_ok_def)
    then show ?thesis using rle_board_split[OF g, of P] that(2) by (simp add: rle_row_all_empty)
  qed
  show ?thesis using enc fields zero nine by simp
qed

theorem board_string_run_lengths_witness:
  "wf_params example_params \<and> valid_state example_params example_lost
   \<and> fst (get_board_str example_params example_lost)
       = Inr ''9/9/B1B4B1/BBB2BBBB/BBBBBBBBB W S D2,E3 3''
   \<and> spec_board_string example_params (grid_pieces example_params example_lost)
       = ''9/9/B1B4B1/BBB2BBBB/BBBBBBBBB''
   \<and> CHR ''0'' \<notin> set ''9/9/B1B4B1/BBB2BBBB/BBBBBBBBB''
   \<and> 0 < BOARD_ROWS
   \<and> grid_pieces example_params example_lost ! 0 = replicate BOARD_COLS EMPTY
   \<and> py_split_on (CHR ''/'') ''9/9/B1B4B1/BBB2BBBB/BBBBBBBBB'' ! 0 = ''9''"
proof -
  have wf: "wf_params example_params"
    by (simp add: wf_params_def example_params_def)
  have v: "valid_state example_params example_lost"
    by (simp add: valid_state_def example_params_def example_state_def example_lost_def
          BOARD_ROWS_def BOARD_COLS_def)
  have enc: "fst (get_board_str example_params example_lost)
       = Inr ''9/9/B1B4B1/BBB2BBBB/BBBBBBBBB W S D2,E3 3''"
    by code_simp
  have sp: "hd (py_split ''9/9/B1B4B1/BBB2BBBB/BBBBBBBBB W S D2,E3 3'') = ''9/9/B1B4B1/BBB2BBBB/BBBBBBBBB''"
    by code_simp
  have row: "grid_pieces example_params example_lost ! 0 = replicate BOARD_COLS EMPTY"
    by code_simp
  have r0: "0 < BOARD_ROWS" by (simp add: BOARD_ROWS_def)
  from board_string_run_lengths [OF wf v] obtain str where
    s: "fst (get_board_str example_params example_lost) = Inr str"
      "hd (py_split str) = spec_board_string example_params (grid_pieces example_params example_lost)"
      "CHR ''0'' \<notin> set (hd (py_split str))"
      "\<forall>r < BOARD_ROWS. grid_pieces example_params example_lost ! r = replicate BOARD_COLS EMPTY
                 \<longrightarrow> py_split_on (CHR ''/'') (hd (py_split str)) ! r = ''9''"
    by blast
  have str: "str = ''9/9/B1B4B1/BBB2BBBB/BBBBBBBBB W S D2,E3 3''" using s(1) enc by simp
  show ?thesis using wf v enc s(2,3,4) row r0 unfolding str sp by simp
qed


section \<open>The notation of the empty board\<close>

lemma decode_empty_board:
  assumes "wf_params P"
  shows "set_from_board_str P ''9/9/9/9/9 W - - 0'' = Inr (empty_board_state P)"
proof -
  let ?G = "replicate BOARD_ROWS (replicate BOARD_COLS EMPTY)"
  have g: "grid_ok ?G" by (rule grid_ok_replicate)
  have "spec_board_string P ?G = ''9/9/9/9/9''"
    by (simp add: spec_board_string_def rle_row_all_empty BOARD_ROWS_def numeral_eq_Suc)
  then have board: "process_board_state_str P ''9/9/9/9/9''
                = Inr (replicate BOARD_ROWS (replicate BOARD_COLS (Piece_value P EMPTY)))"
    using process_board_rle[OF assms g] by simp
  have "''9/9/9/9/9 W - - 0'' = py_join '' '' [''9/9/9/9/9'', ''W'', ''-'', ''-'', ''0'']"
    by simp
  moreover have "py_split (py_join '' '' [''9/9/9/9/9'', ''W'', ''-'', ''-'', ''0''])
                   = [''9/9/9/9/9'', ''W'', ''-'', ''-'', ''0'']"
    by (intro py_split_join5) (simp add: is_space_def)
  ultimately have fields: "py_split ''9/9/9/9/9 W - - 0'' = [''9/9/9/9/9'', ''W'', ''-'', ''-'', ''0'']"
    by simp
  have zero: "py_int ''0'' = Inr 0" by code_simp
  show ?thesis unfolding set_from_board_str_def fields
    using board zero by (simp add: process_visited_pos_str_def empty_board_state_def)
qed

text \<open>
  Claim C6. With a positive move limit, decoding \<^verbatim>\<open>9/9/9/9/9 W - - 0\<close> yields a state in
  which neither side has a piece, \<^verbatim>\<open>is_done\<close> is true, and the utility is LOSS for WHITE
  and WIN for BLACK.
\<close>

theorem empty_board_scenario:
  assumes "wf_params P" "0 < MOVE_LIMIT P"
  shows "\<exists>s. set_from_board_str P ''9/9/9/9/9 W - - 0'' = Inr s
           \<and> fst (count P WHITE s) = Inr 0 \<and> fst (count P BLACK s) = Inr 0
           \<and> fst (is_done P s) = Inr True
           \<and> fst (utility P WHITE s) = Inr (Outcome LOSS)
           \<and> fst (utility P BLACK s) = Inr (Outcome WIN)"
proof -
  let ?s = "empty_board_state P"
  have v: "valid_state P ?s"
    by (simp add: valid_state_def empty_board_state_def list_all_iff)
  have hm: "half_moves ?s < MOVE_LIMIT P" using assms(2) by (simp add: empty_board_state_def)
  have cells: "set (concat (board_state ?s)) = {Piece_value P EMPTY}"
    by (auto simp: empty_board_state_def BOARD_ROWS_def BOARD_COLS_def)
  have ne: "Piece_value P WHITE \<noteq> Piece_value P EMPTY" "Piece_value P BLACK \<noteq> Piece_value P EMPTY"
    using assms(1) by (simp_all add: Piece_value_inj)
  have no: "\<not> has_piece P ?s WHITE" "\<not> has_piece P ?s BLACK"
    using cells ne by (simp_all add: has_piece_def)
  have "filter (\<lambda>v. v = Piece_value P WHITE) (concat (board_state ?s)) = []"
    "filter (\<lambda>v. v = Piece_value P BLACK) (concat (board_state ?s)) = []"
    using cells ne by (auto simp: filter_empty_conv)
  then have m: "material P ?s WHITE = 0" "material P ?s BLACK = 0"
    by (simp_all add: material_def)
  have t: "turn_to_play ?s = WHITE" by (simp add: empty_board_state_def)
  show ?thesis
    using decode_empty_board[OF assms(1)] count_eq[OF assms(1) v] is_done_eq[OF assms(1) v]
      utility_eq[OF assms(1) v hm] no m t
    by simp
qed

theorem empty_board_scenario_witness:
  "wf_params example_params \<and> 0 < MOVE_LIMIT example_params
   \<and> set_from_board_str example_params ''9/9/9/9/9 W - - 0'' = Inr (empty_board_state example_params)
   \<and> fst (count example_params WHITE (empty_board_state example_params)) = Inr 0
   \<and> fst (count example_params BLACK (empty_board_state example_params)) = Inr 0
   \<and> fst (is_done example_params (empty_board_state example_params)) = Inr True
   \<and> fst (utility example_params WHITE (empty_board_state example_params)) = Inr (Outcome LOSS)
   \<and> fst (utility example_params BLACK (empty_board_state example_params)) = Inr (Outcome WIN)"
proof -
  have wf: "wf_params example_params"
    by (simp add: wf_params_def example_params_def)
  have ml: "0 < MOVE_LIMIT example_params" by (simp add: example_params_def)
  have dec: "set_from_board_str example_params ''9/9/9/9/9 W - - 0''
               = Inr (empty_board_state example_params)"
    by code_simp
  show ?thesis using empty_board_scenario [OF wf ml] wf ml dec by auto
qed


section \<open>Malformed notation\<close>










lemma digit_not_letter: "is_digit c \<Longrightarrow> c \<noteq> CHR ''W'' \<and> c \<noteq> CHR ''B''"
  by (auto simp: is_digit_def)

















end
